theory Spec2Isabelle
  imports Complex_Main "HOL-Library.AList"
begin

section \<open>Device rate limiter (backend/app/rate\_limiter.py)\<close>

subsection \<open>Data model\<close>

text \<open>
  A Python \<open>dict\<close> with string keys is an association list in insertion order:
  \<open>map_of\<close> reads a key, \<open>AList.update\<close> assigns to a key (in place when the key
  exists, appended when it is new) and \<open>AList.delete\<close> is \<open>del d[k]\<close>.
  A \<open>datetime\<close> is a count of microseconds; \<open>time.time()\<close> is a real number of
  seconds. Every read of a clock is an argument of the operation that makes it.
\<close>

type_synonym 'v dict = "(string \<times> 'v) list"

type_synonym datetime = int

record SessionInfo =
  session_id :: string
  user_id :: string
  created_at :: datetime
  last_activity :: datetime

record DeviceRateLimiter =
  max_sessions :: int
  active_sessions :: "SessionInfo dict dict"
  http_requests :: "real list dict"

datatype error = KeyError | IndexError

definition MAX_SESSIONS_PER_DEVICE :: int where
  "MAX_SESSIONS_PER_DEVICE = 8"

definition MAX_HTTP_REQUESTS_PER_MINUTE :: int where
  "MAX_HTTP_REQUESTS_PER_MINUTE = 60"

text \<open>\<open>__init__\<close>: both dictionaries start empty.\<close>

definition DeviceRateLimiter_init :: "int \<Rightarrow> DeviceRateLimiter" where
  "DeviceRateLimiter_init ms =
     \<lparr>max_sessions = ms, active_sessions = [], http_requests = []\<rparr>"

text \<open>The global instance of the module.\<close>

definition rate_limiter :: DeviceRateLimiter where
  "rate_limiter = DeviceRateLimiter_init MAX_SESSIONS_PER_DEVICE"

subsection \<open>Session registry\<close>

text \<open>\<open>self._active_sessions.get(device_id, {})\<close>: a read that creates nothing.\<close>

definition sessions_of :: "SessionInfo dict dict \<Rightarrow> string \<Rightarrow> SessionInfo dict" where
  "sessions_of A dev = (case map_of A dev of None \<Rightarrow> [] | Some d \<Rightarrow> d)"

definition get_active_session_count :: "DeviceRateLimiter \<Rightarrow> string \<Rightarrow> int" where
  "get_active_session_count self dev = int (length (sessions_of (active_sessions self) dev))"

definition can_create_session :: "DeviceRateLimiter \<Rightarrow> string \<Rightarrow> bool" where
  "can_create_session self dev \<longleftrightarrow> get_active_session_count self dev < max_sessions self"

text \<open>
  \<open>register_session\<close>. \<open>SessionInfo(session_id=..., user_id=...)\<close> fills
  \<open>created_at\<close> and \<open>last_activity\<close> from two default factories, each its own call of
  \<open>datetime.now()\<close>, in field order: \<open>t_created\<close> is the first reading and
  \<open>t_activity\<close> the second. The assignment goes through the \<open>defaultdict\<close>, which
  supplies an empty dictionary for a device that has no entry.
\<close>

definition register_session ::
  "DeviceRateLimiter \<Rightarrow> string \<Rightarrow> string \<Rightarrow> string \<Rightarrow> datetime \<Rightarrow> datetime
     \<Rightarrow> DeviceRateLimiter \<times> bool" where
  "register_session self dev sid uid t_created t_activity =
     (if \<not> can_create_session self dev then (self, False)
      else
        let info = \<lparr>session_id = sid, user_id = uid,
                    created_at = t_created, last_activity = t_activity\<rparr>;
            d = sessions_of (active_sessions self) dev
        in (self\<lparr>active_sessions :=
                   AList.update dev (AList.update sid info d) (active_sessions self)\<rparr>,
            True))"

text \<open>\<open>unregister_session\<close>: the two membership tests, the deletion, and the removal
  of a device entry that the deletion left empty.\<close>

definition unregister_session ::
  "DeviceRateLimiter \<Rightarrow> string \<Rightarrow> string \<Rightarrow> DeviceRateLimiter \<times> bool" where
  "unregister_session self dev sid =
     (case map_of (active_sessions self) dev of
        None \<Rightarrow> (self, False)
      | Some d \<Rightarrow>
          (case map_of d sid of
             None \<Rightarrow> (self, False)
           | Some _ \<Rightarrow>
               let d' = AList.delete sid d
               in if d' = []
                  then (self\<lparr>active_sessions := AList.delete dev (active_sessions self)\<rparr>, True)
                  else (self\<lparr>active_sessions :=
                               AList.update dev d' (active_sessions self)\<rparr>, True)))"

subsection \<open>Sliding window of HTTP requests\<close>

text \<open>\<open>self._http_requests[device_id]\<close> on the \<open>defaultdict(list)\<close>.\<close>

definition requests_of :: "real list dict \<Rightarrow> string \<Rightarrow> real list" where
  "requests_of R dev = (case map_of R dev of None \<Rightarrow> [] | Some l \<Rightarrow> l)"

definition check_http_rate_limit ::
  "DeviceRateLimiter \<Rightarrow> string \<Rightarrow> real \<Rightarrow> DeviceRateLimiter \<times> bool" where
  "check_http_rate_limit self dev now =
     (let window_start = now - 60;
          kept = filter (\<lambda>ts. ts > window_start) (requests_of (http_requests self) dev);
          self1 = self\<lparr>http_requests := AList.update dev kept (http_requests self)\<rparr>
      in if int (length kept) \<ge> MAX_HTTP_REQUESTS_PER_MINUTE then (self1, False)
         else (self1\<lparr>http_requests :=
                       AList.update dev (kept @ [now]) (http_requests self1)\<rparr>, True))"

subsection \<open>Idle reclamation\<close>

text \<open>\<open>timedelta.total_seconds()\<close> of a difference of two datetimes.\<close>

definition total_seconds :: "int \<Rightarrow> real" where
  "total_seconds delta = real_of_int delta / 1000000"

definition is_stale :: "datetime \<Rightarrow> int \<Rightarrow> SessionInfo \<Rightarrow> bool" where
  "is_stale now max_idle_seconds session \<longleftrightarrow>
     total_seconds (now - last_activity session) > real_of_int max_idle_seconds"

text \<open>
  The inner loop of \<open>cleanup_stale_sessions\<close> runs over a snapshot of the session ids of
  one device; each id is looked up in the dictionary as it is then (a plain \<open>dict\<close>:
  a missing key raises \<open>KeyError\<close>), and a stale session is deleted and counted.
\<close>

fun cleanup_device ::
  "datetime \<Rightarrow> int \<Rightarrow> string list \<Rightarrow> SessionInfo dict \<Rightarrow> int
     \<Rightarrow> error + (SessionInfo dict \<times> int)" where
  "cleanup_device now mi [] d cleaned = Inr (d, cleaned)"
| "cleanup_device now mi (sid # sids) d cleaned =
     (case map_of d sid of
        None \<Rightarrow> Inl KeyError
      | Some session \<Rightarrow>
          if is_stale now mi session
          then cleanup_device now mi sids (AList.delete sid d) (cleaned + 1)
          else cleanup_device now mi sids d cleaned)"

text \<open>
  The outer loop runs over a snapshot of the device ids. The device's dictionary is read
  through the \<open>defaultdict\<close> (empty when missing), cleaned in place, and the entry is
  deleted when nothing is left in it.
\<close>

fun cleanup_devices ::
  "datetime \<Rightarrow> int \<Rightarrow> string list \<Rightarrow> SessionInfo dict dict \<Rightarrow> int
     \<Rightarrow> error + (SessionInfo dict dict \<times> int)" where
  "cleanup_devices now mi [] A cleaned = Inr (A, cleaned)"
| "cleanup_devices now mi (dev # devs) A cleaned =
     (let d = sessions_of A dev
      in case cleanup_device now mi (map fst d) d cleaned of
           Inl e \<Rightarrow> Inl e
         | Inr (d', cleaned') \<Rightarrow>
             cleanup_devices now mi devs
               (if d' = [] then AList.delete dev A else AList.update dev d' A) cleaned')"

definition cleanup_stale_sessions ::
  "DeviceRateLimiter \<Rightarrow> datetime \<Rightarrow> int \<Rightarrow> error + (DeviceRateLimiter \<times> int)" where
  "cleanup_stale_sessions self now max_idle_seconds =
     (case cleanup_devices now max_idle_seconds (map fst (active_sessions self))
             (active_sessions self) 0 of
        Inl e \<Rightarrow> Inl e
      | Inr (A, cleaned) \<Rightarrow> Inr (self\<lparr>active_sessions := A\<rparr>, cleaned))"

subsection \<open>Sequences of calls\<close>

datatype call =
    Register string string string datetime datetime
  | Unregister string string
  | Cleanup datetime int
  | CheckHttp string real

fun step :: "DeviceRateLimiter \<Rightarrow> call \<Rightarrow> error + DeviceRateLimiter" where
  "step self (Register dev sid uid tc ta) = Inr (fst (register_session self dev sid uid tc ta))"
| "step self (Unregister dev sid) = Inr (fst (unregister_session self dev sid))"
| "step self (Cleanup now mi) = map_sum id fst (cleanup_stale_sessions self now mi)"
| "step self (CheckHttp dev now) = Inr (fst (check_http_rate_limit self dev now))"

fun run :: "DeviceRateLimiter \<Rightarrow> call list \<Rightarrow> error + DeviceRateLimiter" where
  "run self [] = Inr self"
| "run self (c # cs) = (case step self c of Inl e \<Rightarrow> Inl e | Inr self' \<Rightarrow> run self' cs)"

text \<open>The record stored under a device and a session id, if any.\<close>

definition session_at :: "DeviceRateLimiter \<Rightarrow> string \<Rightarrow> string \<Rightarrow> SessionInfo option" where
  "session_at self dev sid =
     (case map_of (active_sessions self) dev of None \<Rightarrow> None | Some d \<Rightarrow> map_of d sid)"

text \<open>
  What a dictionary of dictionaries guarantees by construction (keys occur once), and
  what the registry keeps: no device entry is empty.
\<close>

definition wf_registry :: "SessionInfo dict dict \<Rightarrow> bool" where
  "wf_registry A \<longleftrightarrow>
     distinct (map fst A) \<and> (\<forall>(dev, d) \<in> set A. distinct (map fst d) \<and> d \<noteq> [])"

definition within_cap :: "DeviceRateLimiter \<Rightarrow> bool" where
  "within_cap self \<longleftrightarrow>
     (\<forall>(dev, d) \<in> set (active_sessions self). int (length d) \<le> max_sessions self)"

text \<open>
  What \<open>cleanup_stale_sessions\<close> is to leave and to count: per device the sessions
  that are not stale, the number of stale ones, and the registry without the entries
  that have no session left.
\<close>

definition keep_fresh :: "datetime \<Rightarrow> int \<Rightarrow> SessionInfo dict \<Rightarrow> SessionInfo dict" where
  "keep_fresh now mi d = filter (\<lambda>(sid, s). \<not> is_stale now mi s) d"

definition count_stale :: "datetime \<Rightarrow> int \<Rightarrow> SessionInfo dict \<Rightarrow> int" where
  "count_stale now mi d = int (length (filter (\<lambda>(sid, s). is_stale now mi s) d))"

definition reclaimed :: "datetime \<Rightarrow> int \<Rightarrow> SessionInfo dict dict \<Rightarrow> SessionInfo dict dict" where
  "reclaimed now mi A =
     filter (\<lambda>(dev, d). d \<noteq> []) (map (\<lambda>(dev, d). (dev, keep_fresh now mi d)) A)"

subsection \<open>Statistics\<close>

record Stats =
  total_devices :: int
  total_sessions :: int
  max_sessions_per_device :: int

definition get_stats :: "DeviceRateLimiter \<Rightarrow> Stats" where
  "get_stats self =
     \<lparr>total_devices = int (length (active_sessions self)),
      total_sessions = sum_list (map (\<lambda>(dev, sessions). int (length sessions)) (active_sessions self)),
      max_sessions_per_device = max_sessions self\<rparr>"

text \<open>Several \<open>check_http_rate_limit\<close> calls of one device, at the given clock readings.\<close>

fun check_http_calls ::
  "DeviceRateLimiter \<Rightarrow> string \<Rightarrow> real list \<Rightarrow> DeviceRateLimiter \<times> bool list" where
  "check_http_calls self dev [] = (self, [])"
| "check_http_calls self dev (now # nows) =
     (let (self1, ok) = check_http_rate_limit self dev now;
          (self2, oks) = check_http_calls self1 dev nows
      in (self2, ok # oks))"

text \<open>
  Calls that fall in one window: at each call every earlier call of the list is still
  later than the start of the window.
\<close>

fun within_window :: "real list \<Rightarrow> bool" where
  "within_window [] \<longleftrightarrow> True"
| "within_window (now # nows) \<longleftrightarrow> (\<forall>later \<in> set nows. later - 60 < now) \<and> within_window nows"

text \<open>
  The registration that wrote a record. The call sequence is split as
  \<open>pre @ Register dev sid uid tc ta # post\<close>: the call was admitted in the state
  reached by \<open>pre\<close>; in every state from that call on, through each prefix of
  \<open>post\<close>, the record it wrote is the one stored under the device and the session id;
  and every later \<open>register_session\<close> of that device and id in \<open>post\<close> was refused.
\<close>

definition written_by ::
  "int \<Rightarrow> call list \<Rightarrow> string \<Rightarrow> string \<Rightarrow> string \<Rightarrow> datetime \<Rightarrow> datetime
     \<Rightarrow> call list \<Rightarrow> bool" where
  "written_by ms pre dev sid uid tc ta post \<longleftrightarrow>
     (\<exists>before. run (DeviceRateLimiter_init ms) pre = Inr before
        \<and> can_create_session before dev)
   \<and> (\<forall>k \<le> length post. \<exists>s.
          run (DeviceRateLimiter_init ms) (pre @ Register dev sid uid tc ta # take k post) = Inr s
        \<and> session_at s dev sid =
            Some \<lparr>session_id = sid, user_id = uid, created_at = tc, last_activity = ta\<rparr>)
   \<and> (\<forall>k < length post. \<forall>uid' tc' ta'.
          post ! k = Register dev sid uid' tc' ta' \<longrightarrow>
          (\<exists>s. run (DeviceRateLimiter_init ms)
                  (pre @ Register dev sid uid tc ta # take k post) = Inr s
             \<and> \<not> can_create_session s dev))"

subsection \<open>Strings\<close>

text \<open>
  A Python \<open>str\<close> is modelled by its code points below 256, which is what a header value
  decoded as Latin-1 holds. \<open>str_strip\<close> is \<open>str.strip()\<close>, \<open>str_lower\<close> is
  \<open>str.lower()\<close>, \<open>str_split\<close> is \<open>str.split(sep)\<close> for a separator of one
  character, \<open>str_join\<close> is \<open>sep.join(parts)\<close> and \<open>utf8_encode\<close> is
  \<open>str.encode()\<close>.
\<close>

definition isspace :: "char \<Rightarrow> bool" where
  "isspace c \<longleftrightarrow> of_char c \<in> set [9, 10, 11, 12, 13, 28, 29, 30, 31, 32, 133, 160 :: nat]"

definition str_strip :: "string \<Rightarrow> string" where
  "str_strip s = rev (dropWhile isspace (rev (dropWhile isspace s)))"

definition lower_char :: "char \<Rightarrow> char" where
  "lower_char c =
     (let n = of_char c :: nat
      in if (65 \<le> n \<and> n \<le> 90) \<or> (192 \<le> n \<and> n \<le> 222 \<and> n \<noteq> 215)
         then char_of (n + 32) else c)"

definition str_lower :: "string \<Rightarrow> string" where
  "str_lower s = map lower_char s"

fun str_split :: "char \<Rightarrow> string \<Rightarrow> string list" where
  "str_split sep [] = [[]]"
| "str_split sep (c # cs) =
     (if c = sep then [] # str_split sep cs
      else (case str_split sep cs of [] \<Rightarrow> [[c]] | x # xs \<Rightarrow> (c # x) # xs))"

fun str_join :: "string \<Rightarrow> string list \<Rightarrow> string" where
  "str_join sep [] = []"
| "str_join sep [x] = x"
| "str_join sep (x # y # ys) = x @ sep @ str_join sep (y # ys)"

definition utf8_encode :: "string \<Rightarrow> string" where
  "utf8_encode s =
     concat (map (\<lambda>c. let n = of_char c :: nat
                        in if n < 128 then [c]
                           else [char_of (192 + n div 64), char_of (128 + n mod 64)]) s)"

text \<open>The truth value of an optional string: \<open>None\<close> and \<open>""\<close> are false.\<close>

definition truthy :: "string option \<Rightarrow> bool" where
  "truthy x \<longleftrightarrow> (case x of None \<Rightarrow> False | Some s \<Rightarrow> s \<noteq> [])"

subsection \<open>Device fingerprint\<close>

text \<open>
  \<open>_generate_device_fingerprint\<close>. The digest of the standard library,
  \<open>hashlib.sha256(bytes).hexdigest()\<close>, is the parameter \<open>sha256_hexdigest\<close>.
  \<open>composite\<close> is the local variable of that name: the string that is encoded and
  hashed.
\<close>

definition composite :: "string \<Rightarrow> string option \<Rightarrow> string option \<Rightarrow> string" where
  "composite client_ip user_agent custom_id =
     (let ip_normalized = str_lower (str_strip client_ip);
          ua_normalized = str_strip (if truthy user_agent then the user_agent else ''unknown'');
          components = [ip_normalized, ua_normalized]
                         @ (if truthy custom_id then [the custom_id] else [])
      in str_join ''|'' components)"

definition generate_device_fingerprint ::
  "(string \<Rightarrow> string) \<Rightarrow> string \<Rightarrow> string option \<Rightarrow> string option \<Rightarrow> string" where
  "generate_device_fingerprint sha256_hexdigest client_ip user_agent custom_id =
     take 32 (sha256_hexdigest (utf8_encode (composite client_ip user_agent custom_id)))"

text \<open>
  \<open>_get_client_ip\<close>. The headers are the list of (lower-case name, value) pairs of the
  request, read by \<open>headers.get\<close> (first pair of that name); the client is the peer
  address (host, port), if the transport reports one. \<open>split(",")[0]\<close> is the first
  element of a list (\<open>IndexError\<close> on an empty one).
\<close>

definition get_client_ip ::
  "(string \<times> string) list \<Rightarrow> (string \<times> nat) option \<Rightarrow> error + string" where
  "get_client_ip headers client =
     (let forwarded = map_of headers ''x-forwarded-for''
      in if truthy forwarded
         then (case str_split CHR '','' (the forwarded) of
                 [] \<Rightarrow> Inl IndexError
               | first # _ \<Rightarrow> Inr (str_strip first))
         else
           let real_ip = map_of headers ''x-real-ip''
           in if truthy real_ip then Inr (str_strip (the real_ip))
              else (case client of
                      Some (host, port) \<Rightarrow> Inr host
                    | None \<Rightarrow> Inr ''unknown''))"

text \<open>\<open>get_device_id_from_request\<close> (and \<open>get_device_id_from_websocket\<close>, which has
  the same body): \<open>headers.get("user-agent", "unknown")\<close> and no custom identifier.\<close>

definition get_device_id_from_request ::
  "(string \<Rightarrow> string) \<Rightarrow> (string \<times> string) list \<Rightarrow> (string \<times> nat) option
     \<Rightarrow> error + string" where
  "get_device_id_from_request sha256_hexdigest headers client =
     (case get_client_ip headers client of
        Inl e \<Rightarrow> Inl e
      | Inr client_ip \<Rightarrow>
          let user_agent = (case map_of headers ''user-agent'' of
                              None \<Rightarrow> ''unknown'' | Some v \<Rightarrow> v)
          in Inr (generate_device_fingerprint sha256_hexdigest client_ip (Some user_agent) None))"

text \<open>
  The reference derivation, in the words of the specification: trim and lowercase the
  address; trim the agent string, defaulting to the literal "unknown" if absent or
  empty; join address, agent and the custom identifier if present, in that order, with
  the delimiter; hash; keep the first 32 hexadecimal characters.
\<close>

definition derive_composite :: "string \<Rightarrow> string option \<Rightarrow> string option \<Rightarrow> string" where
  "derive_composite address agent custom =
     (let a = str_lower (str_strip address);
          g = str_strip (case agent of None \<Rightarrow> ''unknown''
                         | Some s \<Rightarrow> if s = [] then ''unknown'' else s)
      in case custom of
           None \<Rightarrow> str_join ''|'' [a, g]
         | Some c \<Rightarrow> str_join ''|'' [a, g, c])"

definition derive ::
  "(string \<Rightarrow> string) \<Rightarrow> string \<Rightarrow> string option \<Rightarrow> string option \<Rightarrow> string" where
  "derive digest address agent custom =
     take 32 (digest (utf8_encode (derive_composite address agent custom)))"

definition hexdigits :: string where
  "hexdigits = ''0123456789abcdef''"

section \<open>Properties\<close>

subsection \<open>Association lists\<close>

lemma set_update_subset: "set (AList.update k v al) \<subseteq> insert (k, v) (set al)"
  by (induction al) auto

lemma set_delete_subset: "set (AList.delete k al) \<subseteq> set al"
  by (auto simp: AList.delete_eq)

lemma update_append_notin:
  "k \<notin> fst ` set xs \<Longrightarrow> AList.update k v (xs @ (k, w) # ys) = xs @ (k, v) # ys"
  by (induction xs) auto

lemma delete_append_notin:
  "k \<notin> fst ` set xs \<Longrightarrow> k \<notin> fst ` set ys \<Longrightarrow> AList.delete k (xs @ (k, w) # ys) = xs @ ys"
  by (induction xs) (force simp: AList.delete_eq filter_id_conv)+

lemma map_of_append_notin:
  "k \<notin> fst ` set xs \<Longrightarrow> map_of (xs @ (k, w) # ys) k = Some w"
  by (induction xs) auto

lemma cleanup_device_split:
  "distinct (map fst (kept @ rest)) \<Longrightarrow>
   cleanup_device now mi (map fst rest) (kept @ rest) n =
     Inr (kept @ filter (\<lambda>(sid, s). \<not> is_stale now mi s) rest,
          n + int (length (filter (\<lambda>(sid, s). is_stale now mi s) rest)))"
proof (induction rest arbitrary: kept n)
  case Nil
  then show ?case by simp
next
  case (Cons p rest)
  obtain k s where p: "p = (k, s)" by (cases p)
  from Cons.prems p have nk: "k \<notin> fst ` set kept" and nr: "k \<notin> fst ` set rest"
    by auto
  have look: "map_of (kept @ (k, s) # rest) k = Some s"
    using nk by (rule map_of_append_notin)
  show ?case
  proof (cases "is_stale now mi s")
    case True
    have del: "AList.delete k (kept @ (k, s) # rest) = kept @ rest"
      using nk nr by (rule delete_append_notin)
    have d: "distinct (map fst (kept @ rest))" using Cons.prems by simp
    show ?thesis using Cons.IH [OF d, of "n + 1"] True
      by (simp add: p look del del: map_of_append)
  next
    case False
    have d: "distinct (map fst ((kept @ [(k, s)]) @ rest))" using Cons.prems p by simp
    show ?thesis using Cons.IH [OF d, of n] False
      by (simp add: p look del: map_of_append)
  qed
qed

lemma cleanup_device_eq:
  "distinct (map fst d) \<Longrightarrow>
   cleanup_device now mi (map fst d) d n =
     Inr (filter (\<lambda>(sid, s). \<not> is_stale now mi s) d,
          n + int (length (filter (\<lambda>(sid, s). is_stale now mi s) d)))"
  using cleanup_device_split [of "[]" d now mi n] by simp


lemma cleanup_devices_split:
  "distinct (map fst (keptA @ restA)) \<Longrightarrow>
   \<forall>(dev, d) \<in> set restA. distinct (map fst d) \<Longrightarrow>
   cleanup_devices now mi (map fst restA) (keptA @ restA) n =
     Inr (keptA @ reclaimed now mi restA,
          n + sum_list (map (\<lambda>(dev, d). count_stale now mi d) restA))"
proof (induction restA arbitrary: keptA n)
  case Nil
  then show ?case by (simp add: reclaimed_def)
next
  case (Cons p restA)
  obtain k d where p: "p = (k, d)" by (cases p)
  from Cons.prems p have nk: "k \<notin> fst ` set keptA" and nr: "k \<notin> fst ` set restA"
    and dd: "distinct (map fst d)" and rest: "\<forall>(dev, d) \<in> set restA. distinct (map fst d)"
    by auto
  have look: "sessions_of (keptA @ (k, d) # restA) k = d"
    using map_of_append_notin [OF nk] by (simp add: sessions_of_def del: map_of_append)
  have inner: "cleanup_device now mi (map fst d) d n =
      Inr (keep_fresh now mi d, n + count_stale now mi d)"
    using cleanup_device_eq [OF dd] by (simp add: keep_fresh_def count_stale_def)
  show ?case
  proof (cases "keep_fresh now mi d = []")
    case True
    have del: "AList.delete k (keptA @ (k, d) # restA) = keptA @ restA"
      using nk nr by (rule delete_append_notin)
    have d1: "distinct (map fst (keptA @ restA))" using Cons.prems by simp
    show ?thesis using Cons.IH [OF d1 rest, of "n + count_stale now mi d"] True
      by (simp add: p look inner del reclaimed_def add.assoc del: map_of_append)
  next
    case False
    have upd: "AList.update k (keep_fresh now mi d) (keptA @ (k, d) # restA)
        = (keptA @ [(k, keep_fresh now mi d)]) @ restA"
      using update_append_notin [OF nk] by simp
    have d1: "distinct (map fst ((keptA @ [(k, keep_fresh now mi d)]) @ restA))"
      using Cons.prems p by simp
    show ?thesis using Cons.IH [OF d1 rest, of "n + count_stale now mi d"] False
      by (simp add: p look inner upd reclaimed_def add.assoc del: map_of_append append_assoc)
  qed
qed

lemma cleanup_devices_eq:
  "distinct (map fst A) \<Longrightarrow> \<forall>(dev, d) \<in> set A. distinct (map fst d) \<Longrightarrow>
   cleanup_devices now mi (map fst A) A 0 =
     Inr (reclaimed now mi A, sum_list (map (\<lambda>(dev, d). count_stale now mi d) A))"
  using cleanup_devices_split [of "[]" A now mi 0] by simp

subsection \<open>Invariants of the registry\<close>

lemma length_update_if:
  "length (AList.update k v al) = (if k \<in> fst ` set al then length al else Suc (length al))"
  by (induction al) auto

lemma sessions_of_cases:
  "sessions_of A dev = [] \<or> (dev, sessions_of A dev) \<in> set A"
  by (auto simp: sessions_of_def split: option.splits dest: map_of_SomeD)

lemma wf_registry_update:
  "wf_registry A \<Longrightarrow> distinct (map fst d) \<Longrightarrow> d \<noteq> [] \<Longrightarrow> wf_registry (AList.update dev d A)"
  using set_update_subset [of dev d A]
  by (auto simp: wf_registry_def distinct_update)

lemma wf_registry_delete:
  "wf_registry A \<Longrightarrow> wf_registry (AList.delete dev A)"
  using set_delete_subset [of dev A]
  by (auto simp: wf_registry_def distinct_delete)

lemma wf_sessions_of:
  "wf_registry A \<Longrightarrow> distinct (map fst (sessions_of A dev))"
  using sessions_of_cases [of A dev] by (auto simp: wf_registry_def)

lemma wf_register_session:
  "wf_registry (active_sessions self) \<Longrightarrow>
   wf_registry (active_sessions (fst (register_session self dev sid uid tc ta)))"
  by (simp add: register_session_def Let_def wf_registry_update wf_sessions_of distinct_update)

lemma wf_unregister_session:
  "wf_registry (active_sessions self) \<Longrightarrow>
   wf_registry (active_sessions (fst (unregister_session self dev sid)))"
proof -
  assume wf: "wf_registry (active_sessions self)"
  show ?thesis
  proof (cases "map_of (active_sessions self) dev")
    case None
    then show ?thesis using wf by (simp add: unregister_session_def)
  next
    case (Some d)
    then have "(dev, d) \<in> set (active_sessions self)" by (rule map_of_SomeD)
    with wf have dd: "distinct (map fst d)" by (auto simp: wf_registry_def)
    show ?thesis using wf Some dd
      by (auto simp: unregister_session_def Let_def wf_registry_update wf_registry_delete
            distinct_delete split: option.splits)
  qed
qed

lemma wf_reclaimed:
  assumes "wf_registry A"
  shows "wf_registry (reclaimed now mi A)"
proof -
  have 1: "map fst (map (\<lambda>(dev, d). (dev, keep_fresh now mi d)) A) = map fst A"
    by (induction A) auto
  have "distinct (map fst (reclaimed now mi A))"
    unfolding reclaimed_def using assms 1
    by (metis (no_types, lifting) distinct_map_filter wf_registry_def)
  moreover have "\<forall>(dev, d) \<in> set (reclaimed now mi A). distinct (map fst d) \<and> d \<noteq> []"
    using assms by (auto simp: reclaimed_def wf_registry_def keep_fresh_def distinct_map_filter)
  ultimately show ?thesis by (simp add: wf_registry_def)
qed

lemma cleanup_stale_sessions_eq:
  assumes "wf_registry (active_sessions self)"
  shows "cleanup_stale_sessions self now mi =
     Inr (self\<lparr>active_sessions := reclaimed now mi (active_sessions self)\<rparr>,
          sum_list (map (\<lambda>(dev, d). count_stale now mi d) (active_sessions self)))"
proof -
  from assms have "distinct (map fst (active_sessions self))"
    and "\<forall>(dev, d) \<in> set (active_sessions self). distinct (map fst d)"
    by (auto simp: wf_registry_def)
  then show ?thesis
    by (simp add: cleanup_stale_sessions_def cleanup_devices_eq)
qed

lemma within_cap_register_session:
  "within_cap self \<Longrightarrow> within_cap (fst (register_session self dev sid uid tc ta))"
proof -
  assume cap: "within_cap self"
  let ?d = "sessions_of (active_sessions self) dev"
  show ?thesis
  proof (cases "can_create_session self dev")
    case False
    then show ?thesis using cap by (simp add: register_session_def)
  next
    case True
    then have "int (length ?d) < max_sessions self"
      by (simp add: can_create_session_def get_active_session_count_def)
    then have "int (length (AList.update sid i ?d)) \<le> max_sessions self" for i
      by (simp add: length_update_if)
    then show ?thesis using cap True
        set_update_subset [of dev _ "active_sessions self"]
      by (fastforce simp: register_session_def Let_def within_cap_def)
  qed
qed

lemma within_cap_unregister_session:
  "within_cap self \<Longrightarrow> within_cap (fst (unregister_session self dev sid))"
proof -
  assume cap: "within_cap self"
  show ?thesis
  proof (cases "map_of (active_sessions self) dev")
    case None
    then show ?thesis using cap by (simp add: unregister_session_def)
  next
    case (Some d)
    then have "(dev, d) \<in> set (active_sessions self)" by (rule map_of_SomeD)
    with cap have "int (length d) \<le> max_sessions self" by (auto simp: within_cap_def)
    moreover have "length (AList.delete sid d) \<le> length d" by (rule AList.length_delete_le)
    ultimately have le: "int (length (AList.delete sid d)) \<le> max_sessions self" by linarith
    show ?thesis using cap Some le
        set_update_subset [of dev "AList.delete sid d" "active_sessions self"]
        set_delete_subset [of dev "active_sessions self"]
      by (fastforce simp: unregister_session_def Let_def within_cap_def split: option.splits)
  qed
qed

lemma within_cap_reclaimed:
  "within_cap self \<Longrightarrow> within_cap (self\<lparr>active_sessions := reclaimed now mi (active_sessions self)\<rparr>)"
proof -
  assume cap: "within_cap self"
  have "int (length d) \<le> max_sessions self \<Longrightarrow>
      int (length (keep_fresh now mi d)) \<le> max_sessions self" for d
  proof -
    assume a: "int (length d) \<le> max_sessions self"
    have "length (keep_fresh now mi d) \<le> length d" by (simp add: keep_fresh_def)
    with a show ?thesis by linarith
  qed
  then show ?thesis using cap
    by (auto simp: within_cap_def reclaimed_def)
qed

lemma max_sessions_register [simp]:
  "max_sessions (fst (register_session self dev sid uid tc ta)) = max_sessions self"
  by (simp add: register_session_def Let_def)

lemma max_sessions_unregister [simp]:
  "max_sessions (fst (unregister_session self dev sid)) = max_sessions self"
  by (simp add: unregister_session_def Let_def split: option.splits)

lemma check_http_keeps_registry [simp]:
  "active_sessions (fst (check_http_rate_limit self dev now)) = active_sessions self"
  "max_sessions (fst (check_http_rate_limit self dev now)) = max_sessions self"
  by (simp_all add: check_http_rate_limit_def Let_def)

lemma step_invariant:
  assumes "wf_registry (active_sessions self)" and "within_cap self"
  shows "\<exists>self'. step self c = Inr self' \<and> wf_registry (active_sessions self')
           \<and> within_cap self' \<and> max_sessions self' = max_sessions self"
proof (cases c)
  case (Register dev sid uid tc ta)
  then show ?thesis using assms
    by (simp add: wf_register_session within_cap_register_session)
next
  case (Unregister dev sid)
  then show ?thesis using assms
    by (simp add: wf_unregister_session within_cap_unregister_session)
next
  case (Cleanup now mi)
  then show ?thesis using assms
    by (simp add: cleanup_stale_sessions_eq wf_reclaimed within_cap_reclaimed)
next
  case (CheckHttp dev now)
  then show ?thesis using assms
    by (simp add: within_cap_def)
qed

lemma run_invariant:
  "wf_registry (active_sessions self) \<Longrightarrow> within_cap self \<Longrightarrow>
   \<exists>self'. run self cs = Inr self' \<and> wf_registry (active_sessions self')
           \<and> within_cap self' \<and> max_sessions self' = max_sessions self"
proof (induction cs arbitrary: self)
  case Nil
  then show ?case by simp
next
  case (Cons c cs)
  from step_invariant [OF Cons.prems, of c] obtain s1 where
    s1: "step self c = Inr s1" "wf_registry (active_sessions s1)" "within_cap s1"
      "max_sessions s1 = max_sessions self" by blast
  from Cons.IH [OF s1(2) s1(3)] s1 show ?case by simp
qed

lemma init_invariant:
  "wf_registry (active_sessions (DeviceRateLimiter_init ms))"
  "within_cap (DeviceRateLimiter_init ms)"
  "max_sessions (DeviceRateLimiter_init ms) = ms"
  by (simp_all add: DeviceRateLimiter_init_def wf_registry_def within_cap_def)

lemma count_le_cap:
  "within_cap self \<Longrightarrow> 0 \<le> max_sessions self \<Longrightarrow>
   get_active_session_count self dev \<le> max_sessions self"
  using sessions_of_cases [of "active_sessions self" dev]
  by (auto simp: within_cap_def get_active_session_count_def)

subsection \<open>The session cap\<close>

lemma session_at_register:
  "session_at (fst (register_session self dev sid uid tc ta)) dev' sid' =
     (if can_create_session self dev \<and> dev' = dev \<and> sid' = sid
      then Some \<lparr>session_id = sid, user_id = uid, created_at = tc, last_activity = ta\<rparr>
      else session_at self dev' sid')"
  by (auto simp: register_session_def Let_def session_at_def sessions_of_def
        AList.update_conv' split: option.splits)

lemma register_at_cap:
  "get_active_session_count self dev = max_sessions self \<Longrightarrow>
   register_session self dev sid uid tc ta = (self, False)"
  by (simp add: register_session_def can_create_session_def)

text \<open>
  Claim C1. Starting from a limiter constructed with a cap \<open>ms\<close> (a count, hence
  not negative), every sequence of calls runs without an exception, and in the state it
  reaches the number of active sessions of every device is at most \<open>max_sessions\<close>.
  A \<open>register_session\<close> made when the count equals the cap returns \<open>False\<close> and
  returns the limiter as it was. No \<open>register_session\<close> removes a session: every
  record present before the call is present after it, and every record other than the
  one registered is the same.
\<close>

theorem session_cap_invariant:
  "0 \<le> ms \<Longrightarrow>
   \<exists>self. run (DeviceRateLimiter_init ms) cs = Inr self
     \<and> max_sessions self = ms
     \<and> (\<forall>dev. get_active_session_count self dev \<le> max_sessions self)
     \<and> (\<forall>dev sid uid tc ta.
           get_active_session_count self dev = max_sessions self \<longrightarrow>
           register_session self dev sid uid tc ta = (self, False))
     \<and> (\<forall>dev sid uid tc ta dev' sid'.
           (session_at self dev' sid' \<noteq> None \<longrightarrow>
              session_at (fst (register_session self dev sid uid tc ta)) dev' sid' \<noteq> None)
           \<and> ((dev', sid') \<noteq> (dev, sid) \<longrightarrow>
              session_at (fst (register_session self dev sid uid tc ta)) dev' sid'
                = session_at self dev' sid'))"
proof -
  assume ms: "0 \<le> ms"
  from run_invariant [OF init_invariant(1) init_invariant(2), of ms cs]
  obtain self where self: "run (DeviceRateLimiter_init ms) cs = Inr self"
    "within_cap self" "max_sessions self = ms"
    by (auto simp: init_invariant(3))
  have "\<forall>dev. get_active_session_count self dev \<le> max_sessions self"
    using count_le_cap [OF self(2)] ms self(3) by simp
  moreover have "\<forall>dev sid uid tc ta.
           get_active_session_count self dev = max_sessions self \<longrightarrow>
           register_session self dev sid uid tc ta = (self, False)"
    by (simp add: register_at_cap)
  moreover have "\<forall>dev sid uid tc ta dev' sid'.
           (session_at self dev' sid' \<noteq> None \<longrightarrow>
              session_at (fst (register_session self dev sid uid tc ta)) dev' sid' \<noteq> None)
           \<and> ((dev', sid') \<noteq> (dev, sid) \<longrightarrow>
              session_at (fst (register_session self dev sid uid tc ta)) dev' sid'
                = session_at self dev' sid')"
    by (simp add: session_at_register)
  ultimately show ?thesis using self(1) self(3) by blast
qed

theorem session_cap_invariant_witness:
  "(0::int) \<le> 1 \<and>
   (\<exists>self. run (DeviceRateLimiter_init 1)
        [Register ''d'' ''a'' ''u'' 0 0, Register ''d'' ''b'' ''v'' 5 6] = Inr self
      \<and> get_active_session_count self ''d'' = 1
      \<and> register_session self ''d'' ''b'' ''v'' 7 8 = (self, False)
      \<and> session_at (fst (register_session self ''d'' ''b'' ''v'' 7 8)) ''d'' ''a'' \<noteq> None)"
  using session_cap_invariant [of 1 "[Register ''d'' ''a'' ''u'' 0 0, Register ''d'' ''b'' ''v'' 5 6]"]
  by (simp add: DeviceRateLimiter_init_def register_session_def can_create_session_def
        get_active_session_count_def sessions_of_def session_at_def)

subsection \<open>Releasing a session\<close>

lemma delete_Nil_lookup:
  "AList.delete k d = [] \<Longrightarrow> k' \<noteq> k \<Longrightarrow> map_of d k' = None"
proof -
  assume a: "AList.delete k d = []" and b: "k' \<noteq> k"
  have "map_of (AList.delete k d) k' = map_of d k'" using b by simp
  with a show ?thesis by simp
qed

lemma session_at_unregister:
  "session_at (fst (unregister_session self dev sid)) dev' sid' =
     (if dev' = dev \<and> sid' = sid then None else session_at self dev' sid')"
  by (auto simp: unregister_session_def Let_def session_at_def AList.update_conv'
        AList.delete_conv' delete_Nil_lookup split: option.splits)

lemma length_delete_distinct:
  "distinct (map fst d) \<Longrightarrow> map_of d k = Some v \<Longrightarrow> Suc (length (AList.delete k d)) = length d"
proof (induction d)
  case Nil
  then show ?case by simp
next
  case (Cons p d)
  then show ?case
    by (cases p) (auto simp: rev_image_eqI split: if_splits)
qed

lemma sessions_of_update [simp]: "sessions_of (AList.update dev d A) dev = d"
  by (simp add: sessions_of_def AList.update_conv')

lemma sessions_of_delete [simp]: "sessions_of (AList.delete dev A) dev = []"
  by (simp add: sessions_of_def AList.delete_conv')

text \<open>
  Claim C6. On a registry whose dictionaries are well formed, \<open>unregister_session\<close>
  returns \<open>True\<close> exactly when a record is stored under the device and the session
  id. It then removes that record and no other, the count of the device drops by one,
  and when the count reaches 0 the device key is gone from the registry (no entry is
  ever left empty). When no such record is stored it returns \<open>False\<close> and the
  limiter as it was; it raises nothing.
\<close>

theorem unregister_session_spec:
  "wf_registry (active_sessions self) \<Longrightarrow>
   unregister_session self dev sid = (self', ok) \<Longrightarrow>
   (ok \<longleftrightarrow> session_at self dev sid \<noteq> None)
   \<and> (ok \<longrightarrow>
        session_at self' dev sid = None
        \<and> (\<forall>dev' sid'. (dev', sid') \<noteq> (dev, sid) \<longrightarrow>
              session_at self' dev' sid' = session_at self dev' sid')
        \<and> get_active_session_count self' dev = get_active_session_count self dev - 1
        \<and> (get_active_session_count self' dev = 0 \<longrightarrow>
              dev \<notin> fst ` set (active_sessions self')))
   \<and> (\<not> ok \<longrightarrow> self' = self)
   \<and> wf_registry (active_sessions self')
   \<and> max_sessions self' = max_sessions self \<and> http_requests self' = http_requests self"
proof -
  assume wf: "wf_registry (active_sessions self)"
    and un: "unregister_session self dev sid = (self', ok)"
  have self': "self' = fst (unregister_session self dev sid)" using un by simp
  have ok: "ok \<longleftrightarrow> session_at self dev sid \<noteq> None"
    using un by (auto simp: unregister_session_def session_at_def Let_def
          split: option.splits if_splits)
  have same: "\<not> ok \<longrightarrow> self' = self"
    using un by (auto simp: unregister_session_def Let_def split: option.splits if_splits)
  have wf': "wf_registry (active_sessions self')"
    unfolding self' using wf by (rule wf_unregister_session)
  have rest: "max_sessions self' = max_sessions self \<and> http_requests self' = http_requests self"
    using un by (auto simp: unregister_session_def Let_def split: option.splits if_splits)
  have cnt: "get_active_session_count self' dev = get_active_session_count self dev - 1
        \<and> (get_active_session_count self' dev = 0 \<longrightarrow>
              dev \<notin> fst ` set (active_sessions self'))" if "ok"
  proof -
    from that ok obtain d r where d: "map_of (active_sessions self) dev = Some d"
      and r: "map_of d sid = Some r"
      by (auto simp: session_at_def split: option.splits)
    from d have "(dev, d) \<in> set (active_sessions self)" by (rule map_of_SomeD)
    with wf have dd: "distinct (map fst d)" by (auto simp: wf_registry_def)
    have len: "int (length (AList.delete sid d)) = int (length d) - 1"
      using length_delete_distinct [OF dd r] by linarith
    show ?thesis
    proof (cases "AList.delete sid d = []")
      case True
      then have "self' = self\<lparr>active_sessions := AList.delete dev (active_sessions self)\<rparr>"
        using un d r by (simp add: unregister_session_def)
      then show ?thesis using len True d
        by (simp add: get_active_session_count_def AList.delete_notin_dom)
          (simp add: sessions_of_def)
    next
      case False
      then have "self' = self\<lparr>active_sessions :=
          AList.update dev (AList.delete sid d) (active_sessions self)\<rparr>"
        using un d r by (simp add: unregister_session_def)
      moreover have "length (AList.delete sid d) \<noteq> 0" using False by simp
      ultimately show ?thesis using len d
        by (simp add: get_active_session_count_def)
          (auto simp: sessions_of_def)
    qed
  qed
  show ?thesis using ok same wf' rest cnt
    by (simp add: self' session_at_unregister)
qed

theorem unregister_session_spec_witness:
  "wf_registry (active_sessions (fst (register_session (DeviceRateLimiter_init 8) ''d'' ''s'' ''u'' 0 1)))
   \<and> unregister_session (fst (register_session (DeviceRateLimiter_init 8) ''d'' ''s'' ''u'' 0 1))
        ''d'' ''s'' = (DeviceRateLimiter_init 8, True)
   \<and> get_active_session_count (DeviceRateLimiter_init 8) ''d'' = 0
   \<and> ''d'' \<notin> fst ` set (active_sessions (DeviceRateLimiter_init 8))
   \<and> unregister_session (DeviceRateLimiter_init 8) ''d'' ''s'' = (DeviceRateLimiter_init 8, False)"
proof -
  let ?s = "fst (register_session (DeviceRateLimiter_init 8) ''d'' ''s'' ''u'' 0 1)"
  have wf: "wf_registry (active_sessions ?s)"
    by (simp add: DeviceRateLimiter_init_def register_session_def can_create_session_def
        get_active_session_count_def sessions_of_def wf_registry_def)
  have un: "unregister_session ?s ''d'' ''s'' = (DeviceRateLimiter_init 8, True)"
    by (simp add: DeviceRateLimiter_init_def register_session_def can_create_session_def
        get_active_session_count_def sessions_of_def unregister_session_def)
  have no: "unregister_session (DeviceRateLimiter_init 8) ''d'' ''s'' = (DeviceRateLimiter_init 8, False)"
    by (simp add: DeviceRateLimiter_init_def unregister_session_def)
  from unregister_session_spec [OF wf un] wf un no show ?thesis
    by (simp add: DeviceRateLimiter_init_def get_active_session_count_def sessions_of_def)
qed

subsection \<open>Registering the same session twice\<close>

lemma update_keys_in_place:
  "k \<in> fst ` set al \<Longrightarrow> map fst (AList.update k v al) = map fst al"
  by (simp add: AList.update_keys)

lemma register_denied:
  "\<not> can_create_session self dev \<Longrightarrow> register_session self dev sid uid tc ta = (self, False)"
  by (simp add: register_session_def)

lemma register_admitted:
  "can_create_session self dev \<Longrightarrow>
   register_session self dev sid uid tc ta =
     (self\<lparr>active_sessions :=
        AList.update dev
          (AList.update sid \<lparr>session_id = sid, user_id = uid, created_at = tc, last_activity = ta\<rparr>
             (sessions_of (active_sessions self) dev))
          (active_sessions self)\<rparr>, True)"
  by (simp add: register_session_def Let_def)

lemma registered_key_present:
  "register_session self dev sid uid tc ta = (s1, True) \<Longrightarrow>
   sid \<in> fst ` set (sessions_of (active_sessions s1) dev)"
  by (cases "can_create_session self dev")
     (auto simp: register_denied register_admitted AList.dom_update)

text \<open>
  Claim C7, as amended. Two \<open>register_session\<close> calls with the same device and session
  id: the second never changes the count of the device. It is admitted exactly when the
  count after the first call is below the cap, and then it overwrites the record in place
  (same position, same keys, the new fields). When the device is at the cap the second
  call returns \<open>False\<close> and returns the limiter as it was.
\<close>

theorem reregister_session:
  "register_session self dev sid uid tc ta = (s1, ok1) \<Longrightarrow>
   register_session s1 dev sid uid' tc' ta' = (s2, ok2) \<Longrightarrow>
   get_active_session_count s2 dev = get_active_session_count s1 dev
   \<and> (ok2 \<longleftrightarrow> get_active_session_count s1 dev < max_sessions s1)
   \<and> (ok1 \<and> ok2 \<longrightarrow>
        session_at s2 dev sid =
          Some \<lparr>session_id = sid, user_id = uid', created_at = tc', last_activity = ta'\<rparr>
        \<and> map fst (sessions_of (active_sessions s2) dev)
            = map fst (sessions_of (active_sessions s1) dev)
        \<and> map fst (active_sessions s2) = map fst (active_sessions s1))
   \<and> (\<not> ok2 \<longrightarrow> s2 = s1)"
proof -
  assume r1: "register_session self dev sid uid tc ta = (s1, ok1)"
    and r2: "register_session s1 dev sid uid' tc' ta' = (s2, ok2)"
  have ok2: "ok2 \<longleftrightarrow> get_active_session_count s1 dev < max_sessions s1"
    using r2 by (auto simp: register_session_def can_create_session_def Let_def split: if_splits)
  have same: "\<not> ok2 \<longrightarrow> s2 = s1"
    using r2 by (auto simp: register_session_def Let_def split: if_splits)
  have s2: "s2 = fst (register_session s1 dev sid uid' tc' ta')" using r2 by simp
  have over: "session_at s2 dev sid =
          Some \<lparr>session_id = sid, user_id = uid', created_at = tc', last_activity = ta'\<rparr>
        \<and> map fst (sessions_of (active_sessions s2) dev)
            = map fst (sessions_of (active_sessions s1) dev)
        \<and> map fst (active_sessions s2) = map fst (active_sessions s1)
        \<and> get_active_session_count s2 dev = get_active_session_count s1 dev"
    if "ok1" "ok2"
  proof -
    from r1 that have key: "sid \<in> fst ` set (sessions_of (active_sessions s1) dev)"
      by (simp add: registered_key_present)
    then have "sessions_of (active_sessions s1) dev \<noteq> []" by auto
    then have dev: "dev \<in> fst ` set (active_sessions s1)"
      by (auto simp: sessions_of_def split: option.splits dest: map_of_SomeD
            intro: rev_image_eqI)
    from that ok2 have can: "can_create_session s1 dev" by (simp add: can_create_session_def)
    have s2': "active_sessions s2 = AList.update dev
          (AList.update sid \<lparr>session_id = sid, user_id = uid', created_at = tc', last_activity = ta'\<rparr>
             (sessions_of (active_sessions s1) dev)) (active_sessions s1)"
      using r2 can by (auto simp: register_admitted)
    show ?thesis using key dev can
      by (simp add: s2' update_keys_in_place get_active_session_count_def length_update_if)
         (simp add: s2 session_at_register)
  qed
  have cnt: "get_active_session_count s2 dev = get_active_session_count s1 dev"
  proof (cases ok2)
    case False
    then show ?thesis using same by simp
  next
    case True
    show ?thesis
    proof (cases ok1)
      case True
      with \<open>ok2\<close> over show ?thesis by simp
    next
      case False
      then have "s1 = self" "\<not> can_create_session self dev"
        using r1 by (auto simp: register_session_def Let_def split: if_splits)
      then have "\<not> ok2" using ok2 by (simp add: can_create_session_def)
      with True show ?thesis by simp
    qed
  qed
  show ?thesis using cnt ok2 over same by simp
qed

theorem reregister_session_witness:
  "register_session (DeviceRateLimiter_init 2) ''d'' ''s'' ''u1'' 0 0
     = (\<lparr>max_sessions = 2, active_sessions = [(''d'', [(''s'',
           \<lparr>session_id = ''s'', user_id = ''u1'', created_at = 0, last_activity = 0\<rparr>)])],
         http_requests = []\<rparr>, True)
   \<and> register_session \<lparr>max_sessions = 2, active_sessions = [(''d'', [(''s'',
           \<lparr>session_id = ''s'', user_id = ''u1'', created_at = 0, last_activity = 0\<rparr>)])],
         http_requests = []\<rparr> ''d'' ''s'' ''u2'' 5 6
     = (\<lparr>max_sessions = 2, active_sessions = [(''d'', [(''s'',
           \<lparr>session_id = ''s'', user_id = ''u2'', created_at = 5, last_activity = 6\<rparr>)])],
         http_requests = []\<rparr>, True)
   \<and> get_active_session_count \<lparr>max_sessions = 2, active_sessions = [(''d'', [(''s'',
           \<lparr>session_id = ''s'', user_id = ''u2'', created_at = 5, last_activity = 6\<rparr>)])],
         http_requests = []\<rparr> ''d'' = 1"
proof -
  let ?s1 = "\<lparr>max_sessions = 2, active_sessions = [(''d'', [(''s'',
           \<lparr>session_id = ''s'', user_id = ''u1'', created_at = 0, last_activity = 0\<rparr>)])],
         http_requests = []\<rparr>"
  let ?s2 = "\<lparr>max_sessions = 2, active_sessions = [(''d'', [(''s'',
           \<lparr>session_id = ''s'', user_id = ''u2'', created_at = 5, last_activity = 6\<rparr>)])],
         http_requests = []\<rparr>"
  have r1: "register_session (DeviceRateLimiter_init 2) ''d'' ''s'' ''u1'' 0 0 = (?s1, True)"
    by (simp add: DeviceRateLimiter_init_def register_session_def can_create_session_def
        get_active_session_count_def sessions_of_def)
  have r2: "register_session ?s1 ''d'' ''s'' ''u2'' 5 6 = (?s2, True)"
    by (simp add: register_session_def can_create_session_def
        get_active_session_count_def sessions_of_def)
  from reregister_session [OF r1 r2] r1 r2 show ?thesis
    by (simp add: get_active_session_count_def sessions_of_def)
qed

text \<open>
  At the cap the second call does not overwrite: with a cap of 1 the first call takes
  the only slot, the second returns \<open>False\<close>, and the stored record is still the first.
\<close>

theorem reregister_at_cap_counterexample:
  "snd (register_session
          (fst (register_session (DeviceRateLimiter_init 1) ''d'' ''s'' ''u1'' 0 0))
          ''d'' ''s'' ''u2'' 5 6) = False
   \<and> session_at
        (fst (register_session
          (fst (register_session (DeviceRateLimiter_init 1) ''d'' ''s'' ''u1'' 0 0))
          ''d'' ''s'' ''u2'' 5 6)) ''d'' ''s''
       = Some \<lparr>session_id = ''s'', user_id = ''u1'', created_at = 0, last_activity = 0\<rparr>
   \<and> session_at
        (fst (register_session
          (fst (register_session (DeviceRateLimiter_init 1) ''d'' ''s'' ''u1'' 0 0))
          ''d'' ''s'' ''u2'' 5 6)) ''d'' ''s''
       \<noteq> Some \<lparr>session_id = ''s'', user_id = ''u2'', created_at = 5, last_activity = 6\<rparr>"
  by (simp add: DeviceRateLimiter_init_def register_session_def can_create_session_def
        get_active_session_count_def sessions_of_def session_at_def)

subsection \<open>Idle reclamation\<close>

lemma map_of_filter_values:
  "distinct (map fst xs) \<Longrightarrow>
   map_of (filter (\<lambda>(k, v). P v) xs) k =
     (case map_of xs k of None \<Rightarrow> None | Some v \<Rightarrow> if P v then Some v else None)"
proof (induction xs)
  case Nil
  then show ?case by simp
next
  case (Cons p xs)
  obtain k' v' where p: "p = (k', v')" by (cases p)
  from Cons.prems p have nk: "k' \<notin> fst ` set xs" by auto
  then have none: "map_of xs k' = None" by (simp add: map_of_eq_None_iff)
  show ?case using Cons p none by auto
qed

lemma map_of_reclaimed:
  "distinct (map fst A) \<Longrightarrow>
   map_of (reclaimed now mi A) dev =
     (case map_of A dev of None \<Rightarrow> None
      | Some d \<Rightarrow> if keep_fresh now mi d = [] then None else Some (keep_fresh now mi d))"
proof (induction A)
  case Nil
  then show ?case by (simp add: reclaimed_def)
next
  case (Cons p A)
  obtain k d where p: "p = (k, d)" by (cases p)
  from Cons.prems p have nk: "k \<notin> fst ` set A" by auto
  then have none: "map_of A k = None" by (simp add: map_of_eq_None_iff)
  from Cons have IH: "map_of (reclaimed now mi A) dev =
     (case map_of A dev of None \<Rightarrow> None
      | Some d \<Rightarrow> if keep_fresh now mi d = [] then None else Some (keep_fresh now mi d))"
    by simp
  show ?case using IH none p
    by (auto simp: reclaimed_def)
qed

lemma session_at_reclaimed:
  assumes "wf_registry (active_sessions self)"
  shows "session_at (self\<lparr>active_sessions := reclaimed now mi (active_sessions self)\<rparr>) dev sid =
     (case session_at self dev sid of None \<Rightarrow> None
      | Some r \<Rightarrow> if is_stale now mi r then None else Some r)"
proof (cases "map_of (active_sessions self) dev")
  case None
  then show ?thesis using assms
    by (simp add: session_at_def map_of_reclaimed wf_registry_def)
next
  case (Some d)
  then have "(dev, d) \<in> set (active_sessions self)" by (rule map_of_SomeD)
  with assms have dd: "distinct (map fst d)" by (auto simp: wf_registry_def)
  have look: "map_of (keep_fresh now mi d) sid =
      (case map_of d sid of None \<Rightarrow> None
       | Some r \<Rightarrow> if is_stale now mi r then None else Some r)"
    unfolding keep_fresh_def
    using map_of_filter_values [OF dd, of "\<lambda>s. \<not> is_stale now mi s" sid]
    by (simp split: option.splits)
  show ?thesis
  proof (cases "keep_fresh now mi d = []")
    case True
    with look have "(case map_of d sid of None \<Rightarrow> None
       | Some r \<Rightarrow> if is_stale now mi r then None else Some r) = None" by simp
    then show ?thesis using Some True assms
      by (simp add: session_at_def map_of_reclaimed wf_registry_def)
  next
    case False
    then show ?thesis using Some look assms
      by (simp add: session_at_def map_of_reclaimed wf_registry_def)
  qed
qed

lemma total_reclaimed:
  "sum_list (map (\<lambda>(dev, d). count_stale now mi d) A) =
     sum_list (map (\<lambda>(dev, sessions). int (length sessions)) A)
     - sum_list (map (\<lambda>(dev, sessions). int (length sessions)) (reclaimed now mi A))"
proof (induction A)
  case Nil
  then show ?case by (simp add: reclaimed_def)
next
  case (Cons p A)
  obtain k d where p: "p = (k, d)" by (cases p)
  have split: "int (length d) = count_stale now mi d + int (length (keep_fresh now mi d))"
    using sum_length_filter_compl [of "\<lambda>(sid, s). is_stale now mi s" d]
    by (simp add: count_stale_def keep_fresh_def case_prod_unfold)
  show ?case using Cons split
    by (auto simp: p reclaimed_def)
qed

lemma reclaimed_nothing_stale:
  assumes "wf_registry A"
    and "\<forall>(dev, d) \<in> set A. \<forall>(sid, s) \<in> set d. \<not> is_stale now mi s"
  shows "reclaimed now mi A = A"
proof -
  have keep: "keep_fresh now mi d = d" if "(dev, d) \<in> set A" for dev d
    using that assms(2) by (auto simp: keep_fresh_def filter_id_conv)
  have "map (\<lambda>(dev, d). (dev, keep_fresh now mi d)) A = A"
    using keep by (induction A) auto
  moreover have "filter (\<lambda>(dev, d). d \<noteq> []) A = A"
    using assms(1) by (auto simp: wf_registry_def filter_id_conv)
  ultimately show ?thesis by (simp add: reclaimed_def)
qed

lemma stored_records:
  assumes "wf_registry (active_sessions self)"
    and "(dev, d) \<in> set (active_sessions self)" and "(sid, s) \<in> set d"
  shows "session_at self dev sid = Some s"
proof -
  from assms have "map_of (active_sessions self) dev = Some d"
    by (simp add: wf_registry_def)
  moreover from assms have "distinct (map fst d)" by (auto simp: wf_registry_def)
  with assms(3) have "map_of d sid = Some s" by simp
  ultimately show ?thesis by (simp add: session_at_def)
qed

text \<open>
  Claim C5. On a registry whose dictionaries are well formed (keys occur once, no entry
  is empty) \<open>cleanup_stale_sessions\<close> raises nothing. A record is stored afterwards
  exactly when it was stored before and its idle time, now minus last activity, does not
  exceed the threshold, and it is then the same record; no entry is left empty; the
  number returned is the number of session records before minus the number after; the
  cap and the request windows are untouched. When no stored record is idle beyond the
  threshold the call returns 0 and the limiter as it was.
\<close>

theorem cleanup_stale_sessions_spec:
  "wf_registry (active_sessions self) \<Longrightarrow>
   \<exists>self' n. cleanup_stale_sessions self now mi = Inr (self', n)
     \<and> (\<forall>dev sid. session_at self' dev sid =
          (case session_at self dev sid of None \<Rightarrow> None
           | Some r \<Rightarrow> if is_stale now mi r then None else Some r))
     \<and> wf_registry (active_sessions self')
     \<and> n = total_sessions (get_stats self) - total_sessions (get_stats self')
     \<and> max_sessions self' = max_sessions self
     \<and> http_requests self' = http_requests self
     \<and> ((\<forall>dev sid r. session_at self dev sid = Some r \<longrightarrow> \<not> is_stale now mi r)
          \<longrightarrow> n = 0 \<and> self' = self)"
proof -
  assume wf: "wf_registry (active_sessions self)"
  let ?self' = "self\<lparr>active_sessions := reclaimed now mi (active_sessions self)\<rparr>"
  let ?n = "sum_list (map (\<lambda>(dev, d). count_stale now mi d) (active_sessions self))"
  have run: "cleanup_stale_sessions self now mi = Inr (?self', ?n)"
    using wf by (rule cleanup_stale_sessions_eq)
  have n: "?n = total_sessions (get_stats self) - total_sessions (get_stats ?self')"
    by (simp add: get_stats_def total_reclaimed)
  have none: "(\<forall>dev sid r. session_at self dev sid = Some r \<longrightarrow> \<not> is_stale now mi r)
          \<longrightarrow> ?n = 0 \<and> ?self' = self"
  proof
    assume fresh: "\<forall>dev sid r. session_at self dev sid = Some r \<longrightarrow> \<not> is_stale now mi r"
    have "\<not> is_stale now mi s" if "(dev, d) \<in> set (active_sessions self)" "(sid, s) \<in> set d"
      for dev d sid s
      using fresh stored_records [OF wf that] by simp
    then have "\<forall>(dev, d) \<in> set (active_sessions self). \<forall>(sid, s) \<in> set d. \<not> is_stale now mi s"
      by auto
    then have same: "reclaimed now mi (active_sessions self) = active_sessions self"
      using wf by (simp add: reclaimed_nothing_stale)
    have "?self' = self" by (simp add: same)
    moreover have "?n = 0" using n by (simp add: same get_stats_def)
    ultimately show "?n = 0 \<and> ?self' = self" by simp
  qed
  have look: "\<forall>dev sid. session_at ?self' dev sid =
          (case session_at self dev sid of None \<Rightarrow> None
           | Some r \<Rightarrow> if is_stale now mi r then None else Some r)"
    using wf by (simp add: session_at_reclaimed)
  have wf': "wf_registry (active_sessions ?self')"
    using wf by (simp add: wf_reclaimed)
  have rest: "max_sessions ?self' = max_sessions self" "http_requests ?self' = http_requests self"
    by simp_all
  from run look wf' n rest none show ?thesis by blast
qed

theorem cleanup_stale_sessions_spec_witness:
  "wf_registry [(''d'', [(''old'', \<lparr>session_id = ''old'', user_id = ''u'', created_at = 0, last_activity = 0\<rparr>),
                         (''new'', \<lparr>session_id = ''new'', user_id = ''u'', created_at = 3000000000, last_activity = 3000000000\<rparr>)]),
                (''e'', [(''gone'', \<lparr>session_id = ''gone'', user_id = ''v'', created_at = 1, last_activity = 1\<rparr>)])]
   \<and> cleanup_stale_sessions
        \<lparr>max_sessions = 8,
         active_sessions =
           [(''d'', [(''old'', \<lparr>session_id = ''old'', user_id = ''u'', created_at = 0, last_activity = 0\<rparr>),
                    (''new'', \<lparr>session_id = ''new'', user_id = ''u'', created_at = 3000000000, last_activity = 3000000000\<rparr>)]),
            (''e'', [(''gone'', \<lparr>session_id = ''gone'', user_id = ''v'', created_at = 1, last_activity = 1\<rparr>)])],
         http_requests = []\<rparr> 3600000002 3600
      = Inr (\<lparr>max_sessions = 8,
              active_sessions =
                [(''d'', [(''new'', \<lparr>session_id = ''new'', user_id = ''u'', created_at = 3000000000, last_activity = 3000000000\<rparr>)])],
              http_requests = []\<rparr>, 2)"
proof -
  let ?A = "[(''d'', [(''old'', \<lparr>session_id = ''old'', user_id = ''u'', created_at = 0, last_activity = 0\<rparr>),
                         (''new'', \<lparr>session_id = ''new'', user_id = ''u'', created_at = 3000000000, last_activity = 3000000000\<rparr>)]),
                (''e'', [(''gone'', \<lparr>session_id = ''gone'', user_id = ''v'', created_at = 1, last_activity = 1\<rparr>)])]"
  let ?s = "\<lparr>max_sessions = 8, active_sessions = ?A, http_requests = []\<rparr>"
  have wf: "wf_registry (active_sessions ?s)"
    by (simp add: wf_registry_def)
  have ev: "cleanup_stale_sessions ?s 3600000002 3600
      = Inr (\<lparr>max_sessions = 8,
              active_sessions =
                [(''d'', [(''new'', \<lparr>session_id = ''new'', user_id = ''u'', created_at = 3000000000, last_activity = 3000000000\<rparr>)])],
              http_requests = []\<rparr>, 2)"
    by (simp add: cleanup_stale_sessions_def sessions_of_def is_stale_def total_seconds_def)
  from cleanup_stale_sessions_spec [OF wf, of 3600000002 3600] wf ev show ?thesis
    by simp
qed

subsection \<open>The sliding window\<close>

lemma requests_of_update:
  "requests_of (AList.update dev l R) dev' = (if dev' = dev then l else requests_of R dev')"
  by (simp add: requests_of_def AList.update_conv')

lemma check_http_rate_limit_step:
  "check_http_rate_limit self dev now =
     (let kept = filter (\<lambda>ts. now - 60 < ts) (requests_of (http_requests self) dev);
          ok = (int (length kept) < MAX_HTTP_REQUESTS_PER_MINUTE)
      in (self\<lparr>http_requests :=
                 AList.update dev (if ok then kept @ [now] else kept) (http_requests self)\<rparr>, ok))"
  by (simp add: check_http_rate_limit_def Let_def not_less)

lemma check_http_calls_window:
  "\<forall>x \<in> set (requests_of (http_requests self) dev). \<forall>now \<in> set nows. now - 60 < x \<Longrightarrow>
   within_window nows \<Longrightarrow>
   snd (check_http_calls self dev nows) =
     map (\<lambda>i. int (length (requests_of (http_requests self) dev)) + int i
                < MAX_HTTP_REQUESTS_PER_MINUTE) [0..<length nows]"
proof (induction nows arbitrary: self)
  case Nil
  then show ?case by simp
next
  case (Cons now nows)
  let ?xs = "requests_of (http_requests self) dev"
  let ?ok = "int (length ?xs) < MAX_HTTP_REQUESTS_PER_MINUTE"
  let ?s1 = "fst (check_http_rate_limit self dev now)"
  from Cons.prems(1) have kept: "filter (\<lambda>ts. now - 60 < ts) ?xs = ?xs"
    by (simp add: filter_id_conv)
  have s1: "requests_of (http_requests ?s1) dev = (if ?ok then ?xs @ [now] else ?xs)"
    and ok: "snd (check_http_rate_limit self dev now) = ?ok"
    by (simp_all add: check_http_rate_limit_step Let_def kept requests_of_update)
  have pre: "\<forall>x \<in> set (requests_of (http_requests ?s1) dev). \<forall>t \<in> set nows. t - 60 < x"
    using Cons.prems by (auto simp: s1)
  have win: "within_window nows" using Cons.prems(2) by simp
  have IH: "snd (check_http_calls ?s1 dev nows) =
     map (\<lambda>i. int (length (requests_of (http_requests ?s1) dev)) + int i
                < MAX_HTTP_REQUESTS_PER_MINUTE) [0..<length nows]"
    using Cons.IH [OF pre win] .
  have shift: "map (\<lambda>i. int (length (requests_of (http_requests ?s1) dev)) + int i
                < MAX_HTTP_REQUESTS_PER_MINUTE) [0..<length nows]
      = map (\<lambda>i. int (length ?xs) + int (Suc i) < MAX_HTTP_REQUESTS_PER_MINUTE)
          [0..<length nows]"
    by (auto simp: s1)
  have "snd (check_http_calls self dev (now # nows)) = ?ok # snd (check_http_calls ?s1 dev nows)"
    using ok by (simp add: case_prod_unfold Let_def)
  also have "\<dots> = ?ok # map (\<lambda>i. int (length ?xs) + int (Suc i) < MAX_HTTP_REQUESTS_PER_MINUTE)
          [0..<length nows]"
    using IH shift by simp
  also have "\<dots> = map (\<lambda>i. int (length ?xs) + int i < MAX_HTTP_REQUESTS_PER_MINUTE)
          [0..<length (now # nows)]"
    by (simp add: upt_rec [of 0] map_Suc_upt [symmetric] del: upt_Suc)
  finally show ?case .
qed

lemma check_http_calls_expired:
  assumes "\<forall>x \<in> set (requests_of (http_requests self) dev). \<forall>now \<in> set nows. x \<le> now - 60"
    and "within_window nows"
  shows "snd (check_http_calls self dev nows) =
     map (\<lambda>i. int i < MAX_HTTP_REQUESTS_PER_MINUTE) [0..<length nows]"
proof (cases nows)
  case Nil
  then show ?thesis by simp
next
  case (Cons now rest)
  let ?s1 = "fst (check_http_rate_limit self dev now)"
  have pos: "0 < MAX_HTTP_REQUESTS_PER_MINUTE" by (simp add: MAX_HTTP_REQUESTS_PER_MINUTE_def)
  from assms(1) Cons have kept: "filter (\<lambda>ts. now - 60 < ts) (requests_of (http_requests self) dev) = []"
    by (auto simp: filter_empty_conv)
  have s1: "requests_of (http_requests ?s1) dev = [now]"
    and ok: "snd (check_http_rate_limit self dev now) = True"
    using pos by (simp_all add: check_http_rate_limit_step Let_def kept requests_of_update)
  have pre: "\<forall>x \<in> set (requests_of (http_requests ?s1) dev). \<forall>t \<in> set rest. t - 60 < x"
    using assms(2) Cons by (simp add: s1)
  have win: "within_window rest" using assms(2) Cons by simp
  have "snd (check_http_calls self dev (now # rest)) = True # snd (check_http_calls ?s1 dev rest)"
    using ok by (simp add: case_prod_unfold Let_def)
  also have "\<dots> = True # map (\<lambda>i. int (Suc i) < MAX_HTTP_REQUESTS_PER_MINUTE) [0..<length rest]"
    using check_http_calls_window [OF pre win] by (simp add: s1)
  also have "\<dots> = map (\<lambda>i. int i < MAX_HTTP_REQUESTS_PER_MINUTE) [0..<length (now # rest)]"
    using pos by (simp add: upt_rec [of 0] map_Suc_upt [symmetric] del: upt_Suc)
  finally show ?thesis using Cons by simp
qed

lemma within_window_replicate: "within_window (replicate n t)"
  by (induction n) auto

text \<open>
  Claim C3. One call keeps of the device's timestamps those strictly greater than
  \<open>now - 60\<close>; it is allowed exactly when fewer than the capacity are kept, and it then
  appends \<open>now\<close>, otherwise it stores the kept ones only; other devices, the registry
  and the cap are untouched. For calls of one device that fall in one window, made when
  no earlier timestamp of the device is still in the window, the call number \<open>i\<close>
  (counted from 0) is allowed exactly when \<open>i\<close> is below the capacity: the first
  \<open>c\<close> return \<open>True\<close> and the next one returns \<open>False\<close>. A call made when every
  stored timestamp has left the window returns \<open>True\<close>.
\<close>

theorem check_http_rate_limit_window:
  "(let kept = filter (\<lambda>ts. ts > now - 60) (requests_of (http_requests self) dev);
        (self', ok) = check_http_rate_limit self dev now
    in (ok \<longleftrightarrow> int (length kept) < MAX_HTTP_REQUESTS_PER_MINUTE)
       \<and> requests_of (http_requests self') dev = (if ok then kept @ [now] else kept)
       \<and> (\<forall>dev'. dev' \<noteq> dev \<longrightarrow>
             requests_of (http_requests self') dev' = requests_of (http_requests self) dev')
       \<and> active_sessions self' = active_sessions self
       \<and> max_sessions self' = max_sessions self)
   \<and> ((\<forall>x \<in> set (requests_of (http_requests self) dev). \<forall>t \<in> set nows. x \<le> t - 60)
        \<and> within_window nows \<longrightarrow>
        length (snd (check_http_calls self dev nows)) = length nows
        \<and> (\<forall>i < length nows.
              snd (check_http_calls self dev nows) ! i
                \<longleftrightarrow> int i < MAX_HTTP_REQUESTS_PER_MINUTE))
   \<and> ((\<forall>x \<in> set (requests_of (http_requests self) dev). x \<le> now - 60) \<longrightarrow>
        snd (check_http_rate_limit self dev now) = True)"
proof (intro conjI)
  show "let kept = filter (\<lambda>ts. ts > now - 60) (requests_of (http_requests self) dev);
        (self', ok) = check_http_rate_limit self dev now
    in (ok \<longleftrightarrow> int (length kept) < MAX_HTTP_REQUESTS_PER_MINUTE)
       \<and> requests_of (http_requests self') dev = (if ok then kept @ [now] else kept)
       \<and> (\<forall>dev'. dev' \<noteq> dev \<longrightarrow>
             requests_of (http_requests self') dev' = requests_of (http_requests self) dev')
       \<and> active_sessions self' = active_sessions self
       \<and> max_sessions self' = max_sessions self"
    by (simp add: check_http_rate_limit_step Let_def requests_of_update)
next
  show "(\<forall>x \<in> set (requests_of (http_requests self) dev). \<forall>t \<in> set nows. x \<le> t - 60)
        \<and> within_window nows \<longrightarrow>
        length (snd (check_http_calls self dev nows)) = length nows
        \<and> (\<forall>i < length nows.
              snd (check_http_calls self dev nows) ! i
                \<longleftrightarrow> int i < MAX_HTTP_REQUESTS_PER_MINUTE)"
  proof
    assume a: "(\<forall>x \<in> set (requests_of (http_requests self) dev). \<forall>t \<in> set nows. x \<le> t - 60)
        \<and> within_window nows"
    then have "snd (check_http_calls self dev nows) =
       map (\<lambda>i. int i < MAX_HTTP_REQUESTS_PER_MINUTE) [0..<length nows]"
      using check_http_calls_expired [of self dev nows] by blast
    then show "length (snd (check_http_calls self dev nows)) = length nows
        \<and> (\<forall>i < length nows.
              snd (check_http_calls self dev nows) ! i
                \<longleftrightarrow> int i < MAX_HTTP_REQUESTS_PER_MINUTE)"
      by simp
  qed
next
  show "(\<forall>x \<in> set (requests_of (http_requests self) dev). x \<le> now - 60) \<longrightarrow>
        snd (check_http_rate_limit self dev now) = True"
  proof
    assume "\<forall>x \<in> set (requests_of (http_requests self) dev). x \<le> now - 60"
    then have "filter (\<lambda>ts. now - 60 < ts) (requests_of (http_requests self) dev) = []"
      by (auto simp: filter_empty_conv)
    then show "snd (check_http_rate_limit self dev now) = True"
      by (simp add: check_http_rate_limit_step Let_def MAX_HTTP_REQUESTS_PER_MINUTE_def)
  qed
qed

theorem check_http_rate_limit_window_witness:
  "within_window (replicate 61 0)
   \<and> requests_of (http_requests (DeviceRateLimiter_init 8)) ''d'' = []
   \<and> snd (check_http_calls (DeviceRateLimiter_init 8) ''d'' (replicate 61 0)) ! 59 = True
   \<and> snd (check_http_calls (DeviceRateLimiter_init 8) ''d'' (replicate 61 0)) ! 60 = False
   \<and> snd (check_http_rate_limit (DeviceRateLimiter_init 8) ''d'' 0) = True"
proof -
  have empty: "requests_of (http_requests (DeviceRateLimiter_init 8)) ''d'' = []"
    by (simp add: requests_of_def DeviceRateLimiter_init_def)
  have win: "within_window (replicate 61 0)" by (rule within_window_replicate)
  from check_http_rate_limit_window [of 0 "DeviceRateLimiter_init 8" "''d''" "replicate 61 0"]
    empty win
  show ?thesis by (simp add: MAX_HTTP_REQUESTS_PER_MINUTE_def)
qed

subsection \<open>Growth of the request windows\<close>

lemma http_keys_step:
  "step self c = Inr self' \<Longrightarrow>
   fst ` set (http_requests self) \<subseteq> fst ` set (http_requests self')"
proof (cases c)
  case (Register dev sid uid tc ta)
  assume "step self c = Inr self'"
  with Register have "http_requests self' = http_requests self"
    by (auto simp: register_session_def Let_def split: if_splits)
  then show ?thesis by simp
next
  case (Unregister dev sid)
  assume "step self c = Inr self'"
  with Unregister have "http_requests self' = http_requests self"
    by (auto simp: unregister_session_def Let_def split: option.splits if_splits)
  then show ?thesis by simp
next
  case (Cleanup now mi)
  assume "step self c = Inr self'"
  with Cleanup have "http_requests self' = http_requests self"
    by (auto simp: cleanup_stale_sessions_def split: sum.splits)
  then show ?thesis by simp
next
  case (CheckHttp dev now)
  assume "step self c = Inr self'"
  with CheckHttp have "self' = fst (check_http_rate_limit self dev now)" by simp
  then have "fst ` set (http_requests self') = {dev} \<union> fst ` set (http_requests self)"
    by (simp add: check_http_rate_limit_step Let_def AList.dom_update)
  then show ?thesis by blast
qed

lemma http_keys_run:
  "run self cs = Inr self' \<Longrightarrow>
   fst ` set (http_requests self) \<subseteq> fst ` set (http_requests self')"
proof (induction cs arbitrary: self)
  case Nil
  then show ?case by simp
next
  case (Cons c cs)
  then obtain s1 where s1: "step self c = Inr s1" "run s1 cs = Inr self'"
    by (auto split: sum.splits)
  from http_keys_step [OF s1(1)] Cons.IH [OF s1(2)] show ?case by blast
qed

text \<open>
  Claim C9. A device makes one HTTP request at time 0 and is never seen again; ten
  thousand seconds later, far beyond the reclaim horizon of 3600 seconds, idle
  reclamation runs. The limiter still holds the request window of that device, with its
  timestamp: nothing removes a key of \<open>http_requests\<close>, and the pruning of a window
  happens only on a later request of the same device.
\<close>

theorem http_window_never_reclaimed:
  "run (DeviceRateLimiter_init 8) [CheckHttp ''d'' 0, Cleanup 10000000000 3600]
     = Inr \<lparr>max_sessions = 8, active_sessions = [], http_requests = [(''d'', [0])]\<rparr>"
  by (simp add: DeviceRateLimiter_init_def check_http_rate_limit_def requests_of_def
        MAX_HTTP_REQUESTS_PER_MINUTE_def cleanup_stale_sessions_def)

subsection \<open>Timestamps of a stored record\<close>

lemma run_append:
  "run self (xs @ ys) = (case run self xs of Inl e \<Rightarrow> Inl e | Inr self' \<Rightarrow> run self' ys)"
  by (induction xs arbitrary: self) (auto split: sum.splits)

lemma session_at_cleanup:
  assumes "wf_registry (active_sessions self)"
    and "cleanup_stale_sessions self now mi = Inr (self', n)"
  shows "session_at self' dev sid =
     (case session_at self dev sid of None \<Rightarrow> None
      | Some r \<Rightarrow> if is_stale now mi r then None else Some r)"
  using assms cleanup_stale_sessions_eq [OF assms(1), of now mi]
  by (auto simp: session_at_reclaimed)

lemma step_written:
  assumes "wf_registry (active_sessions self)" and "step self c = Inr self'"
    and "session_at self' dev sid = Some r"
  shows "session_at self dev sid = Some r \<or>
     (\<exists>uid tc ta. c = Register dev sid uid tc ta \<and> can_create_session self dev
        \<and> r = \<lparr>session_id = sid, user_id = uid, created_at = tc, last_activity = ta\<rparr>)"
proof (cases c)
  case (Register dev' sid' uid tc ta)
  then show ?thesis using assms(2,3)
    by (auto simp: session_at_register split: if_splits)
next
  case (Unregister dev' sid')
  then show ?thesis using assms(2,3)
    by (auto simp: session_at_unregister split: if_splits)
next
  case (Cleanup now mi)
  then obtain n where "cleanup_stale_sessions self now mi = Inr (self', n)"
    using assms(2) by (cases "cleanup_stale_sessions self now mi") auto
  from session_at_cleanup [OF assms(1) this, of dev sid] assms(3) show ?thesis
    by (auto split: option.splits if_splits)
next
  case (CheckHttp dev' now)
  then show ?thesis using assms(2,3)
    by (auto simp: session_at_def)
qed

lemma reachable_wf:
  "run (DeviceRateLimiter_init ms) cs = Inr self \<Longrightarrow> wf_registry (active_sessions self)"
  using run_invariant [OF init_invariant(1) init_invariant(2), of ms cs] by auto

lemma run_snoc:
  assumes "run (DeviceRateLimiter_init ms) (cs @ [c]) = Inr self"
  obtains s' where "run (DeviceRateLimiter_init ms) cs = Inr s'" and "step s' c = Inr self"
  using assms by (auto simp: run_append split: sum.splits)

lemma written_by_now:
  assumes "run (DeviceRateLimiter_init ms) cs = Inr s'" and "can_create_session s' dev"
  shows "written_by ms cs dev sid uid tc ta []"
proof -
  have "run (DeviceRateLimiter_init ms) (cs @ [Register dev sid uid tc ta])
      = Inr (fst (register_session s' dev sid uid tc ta))"
    using assms(1) by (simp add: run_append)
  moreover have "session_at (fst (register_session s' dev sid uid tc ta)) dev sid =
      Some \<lparr>session_id = sid, user_id = uid, created_at = tc, last_activity = ta\<rparr>"
    using assms(2) by (simp add: session_at_register)
  ultimately show ?thesis using assms by (auto simp: written_by_def)
qed

lemma written_by_later:
  assumes w: "written_by ms pre dev sid uid tc ta post"
    and cs: "cs = pre @ Register dev sid uid tc ta # post"
    and run: "run (DeviceRateLimiter_init ms) cs = Inr s'"
    and step: "step s' c = Inr self"
    and kept: "session_at self dev sid =
        Some \<lparr>session_id = sid, user_id = uid, created_at = tc, last_activity = ta\<rparr>"
    and refused: "\<And>uid' tc' ta'. c = Register dev sid uid' tc' ta' \<Longrightarrow>
        \<not> can_create_session s' dev"
  shows "written_by ms pre dev sid uid tc ta (post @ [c])"
proof -
  let ?r = "\<lparr>session_id = sid, user_id = uid, created_at = tc, last_activity = ta\<rparr>"
  let ?reg = "Register dev sid uid tc ta"
  have all: "run (DeviceRateLimiter_init ms) (pre @ ?reg # post @ [c]) = Inr self"
    using run step cs run_append [of "DeviceRateLimiter_init ms" cs "[c]"] by simp
  have stored: "\<exists>s. run (DeviceRateLimiter_init ms) (pre @ ?reg # take k (post @ [c])) = Inr s
        \<and> session_at s dev sid = Some ?r" if "k \<le> length (post @ [c])" for k
  proof (cases "k \<le> length post")
    case True
    then show ?thesis using w by (simp add: written_by_def)
  next
    case False
    with that have "take k (post @ [c]) = post @ [c]" by simp
    then show ?thesis using all kept by simp
  qed
  have later: "\<exists>s. run (DeviceRateLimiter_init ms) (pre @ ?reg # take k (post @ [c])) = Inr s
        \<and> \<not> can_create_session s dev"
    if "k < length (post @ [c])" "(post @ [c]) ! k = Register dev sid uid' tc' ta'"
    for k uid' tc' ta'
  proof (cases "k < length post")
    case True
    then show ?thesis using w that(2) by (simp add: written_by_def nth_append)
  next
    case False
    with that(1) have k: "k = length post" by simp
    with that(2) have "c = Register dev sid uid' tc' ta'" by simp
    then have "\<not> can_create_session s' dev" by (rule refused)
    then show ?thesis using run cs k by simp
  qed
  from w have "\<exists>before. run (DeviceRateLimiter_init ms) pre = Inr before
        \<and> can_create_session before dev"
    by (simp add: written_by_def)
  then show ?thesis using stored later
    unfolding written_by_def by blast
qed

lemma last_registration:
  "run (DeviceRateLimiter_init ms) cs = Inr self \<Longrightarrow>
   session_at self dev sid = Some r \<Longrightarrow>
   \<exists>pre post uid tc ta.
      cs = pre @ Register dev sid uid tc ta # post
    \<and> r = \<lparr>session_id = sid, user_id = uid, created_at = tc, last_activity = ta\<rparr>
    \<and> written_by ms pre dev sid uid tc ta post"
proof (induction cs arbitrary: self rule: rev_induct)
  case Nil
  then show ?case by (auto simp: session_at_def DeviceRateLimiter_init_def)
next
  case (snoc c cs)
  from snoc.prems(1) obtain s' where s': "run (DeviceRateLimiter_init ms) cs = Inr s'"
    and step: "step s' c = Inr self" by (rule run_snoc)
  have wf: "wf_registry (active_sessions s')" using s' by (rule reachable_wf)
  show ?case
  proof (cases "\<exists>uid tc ta. c = Register dev sid uid tc ta \<and> can_create_session s' dev")
    case True
    then obtain uid tc ta where c: "c = Register dev sid uid tc ta"
      and can: "can_create_session s' dev" by blast
    have "r = \<lparr>session_id = sid, user_id = uid, created_at = tc, last_activity = ta\<rparr>"
      using step c can snoc.prems(2) by (auto simp: session_at_register)
    moreover have "written_by ms cs dev sid uid tc ta []"
      using s' can by (rule written_by_now)
    ultimately show ?thesis using c by blast
  next
    case False
    with step_written [OF wf step snoc.prems(2)]
    have before: "session_at s' dev sid = Some r" by blast
    from snoc.IH [OF s' before] obtain pre post uid tc ta where
      cs: "cs = pre @ Register dev sid uid tc ta # post"
      and r: "r = \<lparr>session_id = sid, user_id = uid, created_at = tc, last_activity = ta\<rparr>"
      and w: "written_by ms pre dev sid uid tc ta post" by blast
    have "written_by ms pre dev sid uid tc ta (post @ [c])"
    proof (rule written_by_later [OF w cs s' step])
      show "session_at self dev sid =
          Some \<lparr>session_id = sid, user_id = uid, created_at = tc, last_activity = ta\<rparr>"
        using snoc.prems(2) r by simp
    next
      fix uid' tc' ta'
      assume "c = Register dev sid uid' tc' ta'"
      with False show "\<not> can_create_session s' dev" by blast
    qed
    moreover have "cs @ [c] = pre @ Register dev sid uid tc ta # (post @ [c])"
      using cs by simp
    ultimately show ?thesis using r by blast
  qed
qed

text \<open>
  Claim C10, as amended. No operation changes a stored record. In every state reached
  from a new limiter, the record stored under a device and a session id was written by
  the last admitted \<open>register_session\<close> call for that device and id: that call was
  admitted, the record it wrote (the two clock readings of that call) is the stored one
  in every state from that call to the end of the sequence, and every later registration
  of that device and id was refused. Idle reclamation therefore measures the time since
  the second reading of that registration, and \<open>last_activity\<close> equals
  \<open>created_at\<close> exactly when the two readings coincide.
\<close>

theorem session_record_provenance:
  "run (DeviceRateLimiter_init ms) cs = Inr self \<Longrightarrow>
   session_at self dev sid = Some r \<Longrightarrow>
   \<exists>pre post uid tc ta before.
      cs = pre @ Register dev sid uid tc ta # post
    \<and> run (DeviceRateLimiter_init ms) pre = Inr before
    \<and> can_create_session before dev
    \<and> r = \<lparr>session_id = sid, user_id = uid, created_at = tc, last_activity = ta\<rparr>
    \<and> (\<forall>k \<le> length post. \<exists>s.
           run (DeviceRateLimiter_init ms) (pre @ Register dev sid uid tc ta # take k post) = Inr s
         \<and> session_at s dev sid = Some r)
    \<and> (\<forall>k < length post. \<forall>uid' tc' ta'.
           post ! k = Register dev sid uid' tc' ta' \<longrightarrow>
           (\<exists>s. run (DeviceRateLimiter_init ms)
                   (pre @ Register dev sid uid tc ta # take k post) = Inr s
              \<and> \<not> can_create_session s dev))
    \<and> (\<forall>now mi. is_stale now mi r \<longleftrightarrow> real_of_int mi < total_seconds (now - ta))
    \<and> (last_activity r = created_at r \<longleftrightarrow> ta = tc)"
proof -
  assume run: "run (DeviceRateLimiter_init ms) cs = Inr self"
    and at: "session_at self dev sid = Some r"
  from last_registration [OF run at] obtain pre post uid tc ta where
    cs: "cs = pre @ Register dev sid uid tc ta # post"
    and r: "r = \<lparr>session_id = sid, user_id = uid, created_at = tc, last_activity = ta\<rparr>"
    and w: "written_by ms pre dev sid uid tc ta post" by blast
  from w obtain before where before: "run (DeviceRateLimiter_init ms) pre = Inr before"
    "can_create_session before dev"
    by (auto simp: written_by_def)
  have stored: "\<forall>k \<le> length post. \<exists>s.
           run (DeviceRateLimiter_init ms) (pre @ Register dev sid uid tc ta # take k post) = Inr s
         \<and> session_at s dev sid = Some r"
    using w r by (simp add: written_by_def)
  have later: "\<forall>k < length post. \<forall>uid' tc' ta'.
           post ! k = Register dev sid uid' tc' ta' \<longrightarrow>
           (\<exists>s. run (DeviceRateLimiter_init ms)
                   (pre @ Register dev sid uid tc ta # take k post) = Inr s
              \<and> \<not> can_create_session s dev)"
    using w by (simp add: written_by_def)
  have stale: "\<forall>now mi. is_stale now mi r \<longleftrightarrow> real_of_int mi < total_seconds (now - ta)"
    by (simp add: is_stale_def r)
  have eq: "last_activity r = created_at r \<longleftrightarrow> ta = tc"
    by (simp add: r)
  from cs before r stored later stale eq show ?thesis by blast
qed

theorem session_record_provenance_witness:
  "run (DeviceRateLimiter_init 8)
       [Register ''d'' ''s'' ''u'' 10 10, Register ''d'' ''s'' ''v'' 20 21, Unregister ''d'' ''x'']
     = Inr \<lparr>max_sessions = 8,
            active_sessions = [(''d'', [(''s'',
              \<lparr>session_id = ''s'', user_id = ''v'', created_at = 20, last_activity = 21\<rparr>)])],
            http_requests = []\<rparr>
   \<and> session_at \<lparr>max_sessions = 8,
            active_sessions = [(''d'', [(''s'',
              \<lparr>session_id = ''s'', user_id = ''v'', created_at = 20, last_activity = 21\<rparr>)])],
            http_requests = []\<rparr> ''d'' ''s''
       = Some \<lparr>session_id = ''s'', user_id = ''v'', created_at = 20, last_activity = 21\<rparr>
   \<and> (\<exists>pre post uid tc ta.
         [Register ''d'' ''s'' ''u'' 10 10, Register ''d'' ''s'' ''v'' 20 21, Unregister ''d'' ''x'']
           = pre @ Register ''d'' ''s'' uid tc ta # post
       \<and> \<lparr>session_id = ''s'', user_id = ''v'', created_at = 20, last_activity = 21\<rparr>
           = \<lparr>session_id = ''s'', user_id = uid, created_at = tc, last_activity = ta\<rparr>)"
proof -
  let ?cs = "[Register ''d'' ''s'' ''u'' 10 10, Register ''d'' ''s'' ''v'' 20 21,
              Unregister ''d'' ''x'']"
  let ?r = "\<lparr>session_id = ''s'', user_id = ''v'', created_at = 20, last_activity = 21\<rparr>"
  let ?s = "\<lparr>max_sessions = 8, active_sessions = [(''d'', [(''s'', ?r)])], http_requests = []\<rparr>"
  have run: "run (DeviceRateLimiter_init 8) ?cs = Inr ?s"
    by (simp add: DeviceRateLimiter_init_def register_session_def can_create_session_def
        get_active_session_count_def sessions_of_def unregister_session_def)
  have at: "session_at ?s ''d'' ''s'' = Some ?r"
    by (simp add: session_at_def)
  from session_record_provenance [OF run at] run at show ?thesis by blast
qed

text \<open>
  The two timestamps of a record are two readings of the clock: when the clock moves
  between them the stored record has a \<open>last_activity\<close> that is not its
  \<open>created_at\<close>.
\<close>

theorem last_activity_differs_counterexample:
  "session_at (fst (register_session (DeviceRateLimiter_init 8) ''d'' ''s'' ''u'' 1000000 1000001))
      ''d'' ''s''
     = Some \<lparr>session_id = ''s'', user_id = ''u'', created_at = 1000000, last_activity = 1000001\<rparr>
   \<and> last_activity \<lparr>session_id = ''s'', user_id = ''u'', created_at = 1000000,
                     last_activity = 1000001\<rparr>
       \<noteq> created_at \<lparr>session_id = ''s'', user_id = ''u'', created_at = 1000000,
                       last_activity = 1000001\<rparr>"
  by (simp add: DeviceRateLimiter_init_def register_session_def can_create_session_def
        get_active_session_count_def sessions_of_def session_at_def)

subsection \<open>Client address and device fingerprint\<close>

lemma str_split_first:
  "\<exists>rest. str_split sep s = takeWhile (\<lambda>c. c \<noteq> sep) s # rest"
  by (induction s) auto

lemma get_client_ip_cases:
  "get_client_ip headers client =
     Inr (if truthy (map_of headers ''x-forwarded-for'')
          then str_strip (takeWhile (\<lambda>c. c \<noteq> CHR '','')
                            (the (map_of headers ''x-forwarded-for'')))
          else if truthy (map_of headers ''x-real-ip'')
          then str_strip (the (map_of headers ''x-real-ip''))
          else (case client of Some (host, port) \<Rightarrow> host | None \<Rightarrow> ''unknown''))"
proof -
  obtain rest where "str_split CHR '','' (the (map_of headers ''x-forwarded-for''))
      = takeWhile (\<lambda>c. c \<noteq> CHR '','') (the (map_of headers ''x-forwarded-for'')) # rest"
    using str_split_first by blast
  then show ?thesis
    by (simp add: get_client_ip_def Let_def split: option.splits)
qed

lemma forwarded_first_entry:
  "str_strip (takeWhile (\<lambda>c. c \<noteq> CHR '','') ''1.2.3.4, 5.6.6.7'') = ''1.2.3.4''"
  by (simp add: str_strip_def isspace_def)

text \<open>
  Claim C8. The client address is, in this order of preference: the first
  comma-separated entry of a non-empty \<open>x-forwarded-for\<close> header, trimmed; else a
  non-empty \<open>x-real-ip\<close> header, trimmed; else the host of the peer address; else
  the literal "unknown"; no case raises. A request whose forwarded-for header is
  "1.2.3.4, 5.6.6.7" therefore gets the device key of the bare address "1.2.3.4": the
  fingerprint of "1.2.3.4" with the request's agent, which is also the key of a request
  with that agent, no proxy header and the peer address 1.2.3.4.
\<close>

theorem client_ip_preference:
  "get_client_ip headers client =
     Inr (if truthy (map_of headers ''x-forwarded-for'')
          then str_strip (takeWhile (\<lambda>c. c \<noteq> CHR '','')
                            (the (map_of headers ''x-forwarded-for'')))
          else if truthy (map_of headers ''x-real-ip'')
          then str_strip (the (map_of headers ''x-real-ip''))
          else (case client of Some (host, port) \<Rightarrow> host | None \<Rightarrow> ''unknown''))
   \<and> (map_of headers ''x-forwarded-for'' = Some ''1.2.3.4, 5.6.6.7'' \<longrightarrow>
        get_device_id_from_request H headers client =
          Inr (generate_device_fingerprint H ''1.2.3.4''
                 (Some (case map_of headers ''user-agent'' of
                          None \<Rightarrow> ''unknown'' | Some v \<Rightarrow> v)) None)
        \<and> (\<forall>headers' port.
               map_of headers' ''x-forwarded-for'' = None
             \<and> map_of headers' ''x-real-ip'' = None
             \<and> map_of headers' ''user-agent'' = map_of headers ''user-agent'' \<longrightarrow>
               get_device_id_from_request H headers' (Some (''1.2.3.4'', port))
                 = get_device_id_from_request H headers client))"
proof (intro conjI impI)
  show "get_client_ip headers client =
     Inr (if truthy (map_of headers ''x-forwarded-for'')
          then str_strip (takeWhile (\<lambda>c. c \<noteq> CHR '','')
                            (the (map_of headers ''x-forwarded-for'')))
          else if truthy (map_of headers ''x-real-ip'')
          then str_strip (the (map_of headers ''x-real-ip''))
          else (case client of Some (host, port) \<Rightarrow> host | None \<Rightarrow> ''unknown''))"
    by (rule get_client_ip_cases)
next
  assume fwd: "map_of headers ''x-forwarded-for'' = Some ''1.2.3.4, 5.6.6.7''"
  have ip: "get_client_ip headers client = Inr ''1.2.3.4''"
    using fwd forwarded_first_entry
    by (simp add: get_client_ip_cases truthy_def)
  show key: "get_device_id_from_request H headers client =
          Inr (generate_device_fingerprint H ''1.2.3.4''
                 (Some (case map_of headers ''user-agent'' of
                          None \<Rightarrow> ''unknown'' | Some v \<Rightarrow> v)) None)"
    by (simp add: get_device_id_from_request_def ip)
  show "\<forall>headers' port.
               map_of headers' ''x-forwarded-for'' = None
             \<and> map_of headers' ''x-real-ip'' = None
             \<and> map_of headers' ''user-agent'' = map_of headers ''user-agent'' \<longrightarrow>
               get_device_id_from_request H headers' (Some (''1.2.3.4'', port))
                 = get_device_id_from_request H headers client"
  proof (intro allI impI)
    fix headers' :: "(string \<times> string) list" and port :: nat
    assume h: "map_of headers' ''x-forwarded-for'' = None
             \<and> map_of headers' ''x-real-ip'' = None
             \<and> map_of headers' ''user-agent'' = map_of headers ''user-agent''"
    then have "get_client_ip headers' (Some (''1.2.3.4'', port)) = Inr ''1.2.3.4''"
      by (simp add: get_client_ip_cases truthy_def)
    then show "get_device_id_from_request H headers' (Some (''1.2.3.4'', port))
                 = get_device_id_from_request H headers client"
      using h by (simp add: key) (simp add: get_device_id_from_request_def)
  qed
qed

theorem client_ip_preference_witness:
  "map_of [(''x-forwarded-for'', ''1.2.3.4, 5.6.6.7''), (''user-agent'', ''UA'')]
       ''x-forwarded-for'' = Some ''1.2.3.4, 5.6.6.7''
   \<and> get_client_ip [(''x-forwarded-for'', ''1.2.3.4, 5.6.6.7''), (''user-agent'', ''UA'')]
         (Some (''10.0.0.1'', 5000)) = Inr ''1.2.3.4''
   \<and> get_device_id_from_request (\<lambda>b. b) [(''user-agent'', ''UA'')] (Some (''1.2.3.4'', 5000))
       = get_device_id_from_request (\<lambda>b. b)
           [(''x-forwarded-for'', ''1.2.3.4, 5.6.6.7''), (''user-agent'', ''UA'')]
           (Some (''10.0.0.1'', 5000))"
proof -
  let ?h = "[(''x-forwarded-for'', ''1.2.3.4, 5.6.6.7''), (''user-agent'', ''UA'')]"
  have fwd: "map_of ?h ''x-forwarded-for'' = Some ''1.2.3.4, 5.6.6.7''" by simp
  have other: "map_of [(''user-agent'', ''UA'')] ''x-forwarded-for'' = None
      \<and> map_of [(''user-agent'', ''UA'')] ''x-real-ip'' = None
      \<and> map_of [(''user-agent'', ''UA'')] ''user-agent'' = map_of ?h ''user-agent''"
    by simp
  from client_ip_preference [of ?h "Some (''10.0.0.1'', 5000)" "\<lambda>b. b"] fwd other
    forwarded_first_entry
  show ?thesis by (simp add: truthy_def)
qed

lemma composite_eq_derive:
  "composite ip ua custom_id =
     derive_composite ip ua (if custom_id = Some [] then None else custom_id)"
  by (cases ua; cases custom_id) (simp_all add: composite_def derive_composite_def truthy_def)

text \<open>
  Claim C4, as amended. The fingerprint equals the reference derivation in which a
  custom identifier is joined only if it is present and not empty: an empty identifier
  is left out like an absent one. The result is a function of the three inputs alone,
  and for a digest that returns 64 hexadecimal characters, as SHA-256 does, it is
  exactly 32 hexadecimal characters.
\<close>

theorem fingerprint_refines_reference:
  "generate_device_fingerprint H ip ua custom_id =
     derive H ip ua (if custom_id = Some [] then None else custom_id)
   \<and> (custom_id \<noteq> Some [] \<longrightarrow>
        generate_device_fingerprint H ip ua custom_id = derive H ip ua custom_id)
   \<and> (ip' = ip \<and> ua' = ua \<and> custom_id' = custom_id \<longrightarrow>
        generate_device_fingerprint H ip' ua' custom_id'
          = generate_device_fingerprint H ip ua custom_id)
   \<and> ((\<forall>b. length (H b) = 64 \<and> set (H b) \<subseteq> set hexdigits) \<longrightarrow>
        length (generate_device_fingerprint H ip ua custom_id) = 32
        \<and> set (generate_device_fingerprint H ip ua custom_id) \<subseteq> set hexdigits)"
proof (intro conjI impI)
  show eq: "generate_device_fingerprint H ip ua custom_id =
     derive H ip ua (if custom_id = Some [] then None else custom_id)"
    by (simp only: generate_device_fingerprint_def derive_def composite_eq_derive)
  show "generate_device_fingerprint H ip ua custom_id = derive H ip ua custom_id"
    if "custom_id \<noteq> Some []"
    using that eq by simp
  show "generate_device_fingerprint H ip' ua' custom_id'
          = generate_device_fingerprint H ip ua custom_id"
    if "ip' = ip \<and> ua' = ua \<and> custom_id' = custom_id"
    using that by simp
next
  assume hex: "\<forall>b. length (H b) = 64 \<and> set (H b) \<subseteq> set hexdigits"
  show "length (generate_device_fingerprint H ip ua custom_id) = 32"
    using hex by (simp add: generate_device_fingerprint_def)
  have "set (take 32 (H b)) \<subseteq> set (H b)" for b by (rule set_take_subset)
  then show "set (generate_device_fingerprint H ip ua custom_id) \<subseteq> set hexdigits"
    using hex unfolding generate_device_fingerprint_def by blast
qed

theorem fingerprint_refines_reference_witness:
  "Some ''tab-7'' \<noteq> Some []
   \<and> (\<forall>b. length (replicate 64 CHR ''0'') = 64
          \<and> set (replicate 64 CHR ''0'') \<subseteq> set hexdigits)
   \<and> generate_device_fingerprint (\<lambda>b. replicate 64 CHR ''0'') '' 1.2.3.4 '' None (Some ''tab-7'')
       = derive (\<lambda>b. replicate 64 CHR ''0'') '' 1.2.3.4 '' None (Some ''tab-7'')
   \<and> length (generate_device_fingerprint (\<lambda>b. replicate 64 CHR ''0'') '' 1.2.3.4 '' None
               (Some ''tab-7'')) = 32
   \<and> composite '' 1.2.3.4 '' None (Some ''tab-7'') = ''1.2.3.4|unknown|tab-7''"
proof -
  have ne: "Some ''tab-7'' \<noteq> Some []" by simp
  have hex: "\<forall>b::string. length (replicate 64 CHR ''0'') = 64
          \<and> set (replicate 64 CHR ''0'') \<subseteq> set hexdigits"
    by (simp add: hexdigits_def)
  have comp: "composite '' 1.2.3.4 '' None (Some ''tab-7'') = ''1.2.3.4|unknown|tab-7''"
    by (simp add: composite_def truthy_def str_strip_def isspace_def str_lower_def
        lower_char_def)
  from fingerprint_refines_reference
         [of "\<lambda>b. replicate 64 CHR ''0''" "'' 1.2.3.4 ''" None "Some ''tab-7''"
             "'' 1.2.3.4 ''" None "Some ''tab-7''"] hex comp ne
  show ?thesis by blast
qed

text \<open>
  An empty custom identifier is present, yet the code leaves it out: the code hashes
  "1.2.3.4|ua" where the reference, which joins every identifier that is present,
  hashes "1.2.3.4|ua|". The two keys are prefixes of the digests of different strings,
  so the two derivations are not equal.
\<close>

theorem empty_custom_id_counterexample:
  "composite ''1.2.3.4'' (Some ''ua'') (Some []) = ''1.2.3.4|ua''
   \<and> derive_composite ''1.2.3.4'' (Some ''ua'') (Some []) = ''1.2.3.4|ua|''
   \<and> \<not> (\<forall>H. generate_device_fingerprint H ''1.2.3.4'' (Some ''ua'') (Some [])
              = derive H ''1.2.3.4'' (Some ''ua'') (Some []))"
proof (intro conjI)
  show c1: "composite ''1.2.3.4'' (Some ''ua'') (Some []) = ''1.2.3.4|ua''"
    by (simp add: composite_def truthy_def str_strip_def isspace_def str_lower_def
        lower_char_def)
  show c2: "derive_composite ''1.2.3.4'' (Some ''ua'') (Some []) = ''1.2.3.4|ua|''"
    by (simp add: derive_composite_def str_strip_def isspace_def str_lower_def lower_char_def)
  show "\<not> (\<forall>H. generate_device_fingerprint H ''1.2.3.4'' (Some ''ua'') (Some [])
              = derive H ''1.2.3.4'' (Some ''ua'') (Some []))"
  proof
    assume "\<forall>H. generate_device_fingerprint H ''1.2.3.4'' (Some ''ua'') (Some [])
              = derive H ''1.2.3.4'' (Some ''ua'') (Some [])"
    then have "generate_device_fingerprint (\<lambda>b. b) ''1.2.3.4'' (Some ''ua'') (Some [])
              = derive (\<lambda>b. b) ''1.2.3.4'' (Some ''ua'') (Some [])" by blast
    then show False
      by (simp add: generate_device_fingerprint_def derive_def c1 c2 utf8_encode_def)
  qed
qed

end
